theory Spec2Isabelle
  imports Main "HOL-Library.Sublist"
begin

section \<open>Go standard library functions used by the sources\<close>

text \<open>
  Go strings are byte sequences; they are modelled as \<open>string\<close> (a list of 8-bit
  characters).  \<^verbatim>\<open>strings.HasPrefix(s, p)\<close> is \<open>prefix p s\<close> of the library.
\<close>

text \<open>
  \<^verbatim>\<open>strings.LastIndexByte(s, c)\<close>: scans \<open>s\<close> from its last byte down to index 0
  and returns the first index holding \<open>c\<close>, or -1.  The counter of the model is one above
  the index the Go loop looks at.
\<close>

fun last_index_from :: "string \<Rightarrow> char \<Rightarrow> nat \<Rightarrow> int" where
  "last_index_from s c 0 = - 1"
| "last_index_from s c (Suc i) = (if s ! i = c then int i else last_index_from s c i)"

definition LastIndexByte :: "string \<Rightarrow> char \<Rightarrow> int" where
  "LastIndexByte s c = last_index_from s c (length s)"

text \<open>
  \<^verbatim>\<open>strings.Replace(s, old, new, 1)\<close>: the first occurrence of \<open>old\<close> in \<open>s\<close> is
  replaced by \<open>new\<close>; without an occurrence \<open>s\<close> is returned.  An empty \<open>old\<close> occurs at
  index 0, so \<open>new\<close> is put in front of \<open>s\<close>.
\<close>

fun Replace_first :: "string \<Rightarrow> string \<Rightarrow> string \<Rightarrow> string" where
  "Replace_first [] old new = (if old = [] then new else [])"
| "Replace_first (c # cs) old new =
     (if prefix old (c # cs) then new @ drop (length old) (c # cs)
      else c # Replace_first cs old new)"

section \<open>Load balancer names (the name codec of the rename cascade)\<close>

text \<open>
  The package constants \<^verbatim>\<open>servicePrefix\<close>, \<^verbatim>\<open>listenerPrefix\<close>, \<^verbatim>\<open>poolPrefix\<close> and
  \<^verbatim>\<open>monitorPrefix\<close> are declared in another file of the package; they are parameters
  of the model.  They are plain text (upstream: \<^verbatim>\<open>kube_service_\<close>, \<^verbatim>\<open>listener_\<close>,
  \<^verbatim>\<open>pool_\<close>, \<^verbatim>\<open>monitor_\<close>), so inside the regular expression each stands for itself.
\<close>

record prefixes =
  servicePrefix :: string
  listenerPrefix :: string
  poolPrefix :: string
  monitorPrefix :: string

text \<open>
  The first argument of \<^verbatim>\<open>decomposeLBName\<close> is the source text of a regular
  expression.  The callers pass the empty string or
  \<^verbatim>\<open>fmt.Sprintf("%s[0-9]+_", p)\<close> for one of the prefix constants \<open>p\<close>.
\<close>

datatype resource_prefix = NoPrefix | Numbered string

definition is_digit :: "char \<Rightarrow> bool" where
  "is_digit c = (c \<in> set ''0123456789'')"

text \<open>A literal piece of the pattern: it consumes exactly its own text.\<close>

definition strip_literal :: "string \<Rightarrow> string \<Rightarrow> string option" where
  "strip_literal p s = (if prefix p s then Some (drop (length p) s) else None)"

text \<open>
  The resource prefix at the head of \<open>s\<close>.  In \<^verbatim>\<open>p[0-9]+_\<close> the digits are followed by
  \<open>_\<close>, which is no digit, so only the whole run of digits can match: giving digits
  back never helps.
\<close>

fun strip_resource_prefix :: "resource_prefix \<Rightarrow> string \<Rightarrow> string option" where
  "strip_resource_prefix NoPrefix s = Some s"
| "strip_resource_prefix (Numbered p) s =
     (case strip_literal p s of
        None \<Rightarrow> None
      | Some r \<Rightarrow>
          (case dropWhile is_digit r of
             [] \<Rightarrow> None
           | c # r' \<Rightarrow> if takeWhile is_digit r \<noteq> [] \<and> c = CHR ''_'' then Some r' else None))"

text \<open>
  \<^verbatim>\<open>(.+)_([^_]+)_([^_]+)\<close> at the head of \<open>r\<close> with the first group of length \<open>p\<close>.
  \<^verbatim>\<open>.\<close> matches every byte but the newline (the pattern is compiled without the
  \<^verbatim>\<open>s\<close> flag), \<^verbatim>\<open>[^_]\<close> every byte but \<open>_\<close> (the newline too).  The second group is
  followed by \<open>_\<close>, so it is the whole run up to the next \<open>_\<close>; the third group is
  greedy and nothing follows it, so it is the whole run as well.  Group borders stand
  next to ASCII bytes, so bytes and UTF-8 code points give the same groups.
\<close>

definition fields_at :: "string \<Rightarrow> nat \<Rightarrow> (string \<times> string \<times> string) option" where
  "fields_at r p =
     (let a = take p r in
      if a = [] \<or> CHR 0x0A \<in> set a then None
      else case drop p r of
        [] \<Rightarrow> None
      | c # r1 \<Rightarrow>
          (let b = takeWhile (\<lambda>x. x \<noteq> CHR ''_'') r1 in
           if c \<noteq> CHR ''_'' \<or> b = [] then None
           else case dropWhile (\<lambda>x. x \<noteq> CHR ''_'') r1 of
             [] \<Rightarrow> None
           | d # r2 \<Rightarrow>
               (let n = takeWhile (\<lambda>x. x \<noteq> CHR ''_'') r2 in
                if n = [] then None else Some (a, b, n))))"

text \<open>
  The first group is greedy: the longest first group for which the rest of the pattern
  matches wins, so the lengths are tried from \<open>p\<close> downwards.
\<close>

fun greedy_fields :: "string \<Rightarrow> nat \<Rightarrow> (string \<times> string \<times> string) option" where
  "greedy_fields r 0 = None"
| "greedy_fields r (Suc p) =
     (case fields_at r (Suc p) of Some m \<Rightarrow> Some m | None \<Rightarrow> greedy_fields r p)"

text \<open>The whole pattern at the head of \<open>s\<close>.\<close>

definition match_here :: "string \<Rightarrow> resource_prefix \<Rightarrow> string \<Rightarrow> (string \<times> string \<times> string) option" where
  "match_here sp rp s =
     (case strip_resource_prefix rp s of
        None \<Rightarrow> None
      | Some r \<Rightarrow>
          (case strip_literal sp r of
             None \<Rightarrow> None
           | Some r' \<Rightarrow> greedy_fields r' (length r')))"

text \<open>
  \<^verbatim>\<open>FindAllStringSubmatch(lbName, -1)\<close> and its element 0: the pattern is not
  anchored, and the first match is the one that starts leftmost.
\<close>

fun first_submatch :: "string \<Rightarrow> resource_prefix \<Rightarrow> string \<Rightarrow> (string \<times> string \<times> string) option" where
  "first_submatch sp rp [] = match_here sp rp []"
| "first_submatch sp rp (c # cs) =
     (case match_here sp rp (c # cs) of
        Some m \<Rightarrow> Some m
      | None \<Rightarrow> first_submatch sp rp cs)"

text \<open>
  \<^verbatim>\<open>decomposeLBName(resourcePrefix, lbName)\<close>; \<open>sp\<close> is the package constant
  \<^verbatim>\<open>servicePrefix\<close>.  Without a match the three results are empty strings.
\<close>

definition decomposeLBName :: "string \<Rightarrow> resource_prefix \<Rightarrow> string \<Rightarrow> string \<times> string \<times> string" where
  "decomposeLBName sp rp lbName =
     (case first_submatch sp rp lbName of
        None \<Rightarrow> ([], [], [])
      | Some (clusterName, namespace, name) \<Rightarrow> (clusterName, namespace, name))"

definition replaceClusterName :: "string \<Rightarrow> string \<Rightarrow> string \<Rightarrow> string" where
  "replaceClusterName oldClusterName clusterName objectName =
     Replace_first objectName oldClusterName clusterName"

section \<open>Manila share backends: export locations (pkg/share/manila/sharebackends/util.go)\<close>

text \<open>Only the field of \<^verbatim>\<open>shares.ExportLocation\<close> that the function reads.\<close>

record ExportLocation =
  Path :: string

text \<open>
  The error of \<^verbatim>\<open>fmt.Errorf\<close> is its message; the result is the error (\<open>Inl\<close>) or the
  pair of address and location (\<open>Inr\<close>).  The slice bounds are in range on the second
  branch, since there \<open>0 < delimPos < len(loc.Path)\<close>.
\<close>

definition splitExportLocation :: "ExportLocation \<Rightarrow> string + (string \<times> string)" where
  "splitExportLocation loc =
     (let delimPos = LastIndexByte (Path loc) (CHR '':'') in
      if delimPos \<le> 0
      then Inl (''failed to parse address and location from export location '' @ [CHR 39]
                 @ Path loc @ [CHR 39])
      else Inr (take (nat delimPos) (Path loc), drop (nat (delimPos + 1)) (Path loc)))"

section \<open>The load balancing service (Octavia) behind the accessor functions\<close>

text \<open>
  The fields of the gophercloud structures that the cascade reads or writes, and the
  links of the resource tree: a listener belongs to a load balancer (\<open>l_lb\<close>), a pool to
  a load balancer and to a listener (\<open>p_lb\<close>, \<open>p_listener\<close>), and a pool names its
  health monitor in \<open>p_MonitorID\<close> (empty when it has none).
\<close>

record loadbalancer =
  lb_ID :: string
  lb_Name :: string
  lb_Tags :: "string list"

record listener =
  l_ID :: string
  l_Name :: string
  l_Tags :: "string list"
  l_lb :: string

record pool =
  p_ID :: string
  p_Name :: string
  p_MonitorID :: string
  p_lb :: string
  p_listener :: string

record monitor =
  m_ID :: string
  m_Name :: string

datatype error = ErrNotFound | ErrMultipleResults | ErrRequest string

text \<open>The requests a cascade can send, with their arguments in the order of the Go calls.\<close>

datatype call =
    ListListeners string
  | GetPool string string
  | GetMonitor string
  | PutMonitor string string string
  | PutPool string string string
  | PutListener string string string "string list"
  | PutLoadBalancer string string "string list"

text \<open>
  The state of the service: the stored resources, the log of the requests received so
  far, each with its outcome (\<open>None\<close>: served), and the outcomes the transport has in
  store for the coming requests (\<open>Some e\<close>: that request fails with \<open>e\<close> and changes
  nothing; an empty list: every request reaches the service).
\<close>

record cloud =
  loadbalancers :: "loadbalancer list"
  listeners :: "listener list"
  pools :: "pool list"
  monitors :: "monitor list"
  calls :: "(call \<times> error option) list"
  pending :: "error option list"

text \<open>
  One request: it fails with the pending transport error, or is served by \<open>serve\<close>, which
  may fail itself; either way it is logged with its outcome.
\<close>

definition request :: "call \<Rightarrow> (cloud \<Rightarrow> error + ('a \<times> cloud)) \<Rightarrow> cloud \<Rightarrow> (error + 'a) \<times> cloud" where
  "request c serve st =
     (let st1 = st\<lparr>pending := tl (pending st)\<rparr> in
      case (case pending st of Some e # rest \<Rightarrow> Inl e | _ \<Rightarrow> serve st1) of
        Inl e \<Rightarrow> (Inl e, st1\<lparr>calls := calls st1 @ [(c, Some e)]\<rparr>)
      | Inr (x, st2) \<Rightarrow> (Inr x, st2\<lparr>calls := calls st2 @ [(c, None)]\<rparr>))"

text \<open>
  Modelled from the spec: the accessor functions of \<^verbatim>\<open>pkg/util/openstack\<close> are not
  among the sources.  The spec gives their contract: \<^verbatim>\<open>listListeners(loadBalancerID)\<close>
  returns the listeners of the load balancer.
\<close>

definition GetListenersByLoadBalancerID :: "string \<Rightarrow> cloud \<Rightarrow> (error + listener list) \<times> cloud" where
  "GetListenersByLoadBalancerID lbID =
     request (ListListeners lbID) (\<lambda>st. Inr (filter (\<lambda>l. l_lb l = lbID) (listeners st), st))"

text \<open>
  Modelled from the spec: \<^verbatim>\<open>getPoolForListener(loadBalancerID, listenerID)\<close> returns the
  single pool of the listener; no pool is the failure not-found, and more than one pool
  is made an explicit error.
\<close>

definition GetPoolByListener :: "string \<Rightarrow> string \<Rightarrow> cloud \<Rightarrow> (error + pool) \<times> cloud" where
  "GetPoolByListener lbID listenerID =
     request (GetPool lbID listenerID)
       (\<lambda>st. case filter (\<lambda>p. p_lb p = lbID \<and> p_listener p = listenerID) (pools st) of
                [] \<Rightarrow> Inl ErrNotFound
              | [p] \<Rightarrow> Inr (p, st)
              | p # q # ps \<Rightarrow> Inl ErrMultipleResults)"

text \<open>Modelled from the spec: \<^verbatim>\<open>getHealthMonitor(monitorID)\<close> returns the monitor.\<close>

definition GetHealthMonitor :: "string \<Rightarrow> cloud \<Rightarrow> (error + monitor) \<times> cloud" where
  "GetHealthMonitor monitorID =
     request (GetMonitor monitorID)
       (\<lambda>st. case find (\<lambda>m. m_ID m = monitorID) (monitors st) of
                None \<Rightarrow> Inl ErrNotFound
              | Some m \<Rightarrow> Inr (m, st))"

text \<open>
  Modelled from the spec: the updates are partial-field, only the supplied fields
  change: \<^verbatim>\<open>updateHealthMonitor(monitorID, {name}, loadBalancerID)\<close>.
\<close>

definition UpdateHealthMonitor :: "string \<Rightarrow> string \<Rightarrow> string \<Rightarrow> cloud \<Rightarrow> (error + unit) \<times> cloud" where
  "UpdateHealthMonitor monitorID name lbID =
     request (PutMonitor monitorID name lbID)
       (\<lambda>st. if monitorID \<in> set (map m_ID (monitors st))
              then Inr ((), st\<lparr>monitors :=
                     map (\<lambda>m. if m_ID m = monitorID then m\<lparr>m_Name := name\<rparr> else m) (monitors st)\<rparr>)
              else Inl ErrNotFound)"

text \<open>Modelled from the spec: \<^verbatim>\<open>updatePool(loadBalancerID, poolID, {name})\<close>.\<close>

definition UpdatePool :: "string \<Rightarrow> string \<Rightarrow> string \<Rightarrow> cloud \<Rightarrow> (error + unit) \<times> cloud" where
  "UpdatePool lbID poolID name =
     request (PutPool lbID poolID name)
       (\<lambda>st. if poolID \<in> set (map p_ID (pools st))
              then Inr ((), st\<lparr>pools :=
                     map (\<lambda>p. if p_ID p = poolID then p\<lparr>p_Name := name\<rparr> else p) (pools st)\<rparr>)
              else Inl ErrNotFound)"

text \<open>Modelled from the spec: \<^verbatim>\<open>updateListener(loadBalancerID, listenerID, {name, tags})\<close>.\<close>

definition UpdateListener :: "string \<Rightarrow> string \<Rightarrow> string \<Rightarrow> string list \<Rightarrow> cloud \<Rightarrow> (error + unit) \<times> cloud" where
  "UpdateListener lbID listenerID name tags =
     request (PutListener lbID listenerID name tags)
       (\<lambda>st. if listenerID \<in> set (map l_ID (listeners st))
              then Inr ((), st\<lparr>listeners :=
                     map (\<lambda>l. if l_ID l = listenerID then l\<lparr>l_Name := name, l_Tags := tags\<rparr> else l)
                       (listeners st)\<rparr>)
              else Inl ErrNotFound)"

text \<open>
  Modelled from the spec: \<^verbatim>\<open>updateLoadBalancer(loadBalancerID, {name, tags})\<close> returns
  the updated load balancer.
\<close>

definition UpdateLoadBalancer :: "string \<Rightarrow> string \<Rightarrow> string list \<Rightarrow> cloud \<Rightarrow> (error + loadbalancer) \<times> cloud" where
  "UpdateLoadBalancer lbID name tags =
     request (PutLoadBalancer lbID name tags)
       (\<lambda>st. case find (\<lambda>b. lb_ID b = lbID) (loadbalancers st) of
                None \<Rightarrow> Inl ErrNotFound
              | Some b \<Rightarrow>
                  Inr (b\<lparr>lb_Name := name, lb_Tags := tags\<rparr>,
                       st\<lparr>loadbalancers :=
                         map (\<lambda>b. if lb_ID b = lbID then b\<lparr>lb_Name := name, lb_Tags := tags\<rparr> else b)
                           (loadbalancers st)\<rparr>))"

section \<open>The rename cascade\<close>

text \<open>
  \<^verbatim>\<open>lbHasOldClusterName\<close>.  The \<^verbatim>\<open>klog.Errorf\<close> line only writes to the log.
\<close>

definition lbHasOldClusterName :: "prefixes \<Rightarrow> loadbalancer \<Rightarrow> string \<Rightarrow> bool" where
  "lbHasOldClusterName px loadbalancer clusterName =
     (if \<not> prefix (servicePrefix px) (lb_Name loadbalancer) then False
      else let existingClusterName = fst (decomposeLBName (servicePrefix px) NoPrefix (lb_Name loadbalancer)) in
        if existingClusterName \<noteq> clusterName then True else False)"

text \<open>
  The body of the two loops over tags in \<^verbatim>\<open>renameLoadBalancer\<close>: the new value of
  \<^verbatim>\<open>Tags[i]\<close> for the tag \<open>tag\<close>.  Each tag is read before it is written and no tag is
  read twice, so the loop is a map over the tags.
\<close>

definition renameTag :: "prefixes \<Rightarrow> string \<Rightarrow> string \<Rightarrow> string" where
  "renameTag px clusterName tag =
     (let oldClusterNameTag = fst (decomposeLBName (servicePrefix px) NoPrefix tag) in
      if oldClusterNameTag \<noteq> [] \<and> oldClusterNameTag \<noteq> clusterName
      then replaceClusterName oldClusterNameTag clusterName tag
      else tag)"

text \<open>
  \<^verbatim>\<open>renameLoadBalancer\<close>, the block of the health monitor (the \<^verbatim>\<open>if lbPool.MonitorID != ""\<close>
  inside the pool's block).  Its \<open>oldClusterName\<close> is a variable of its own, declared
  with \<^verbatim>\<open>:=\<close>.  A block returns the error that ends the function, or \<open>Inr ()\<close> when the
  function goes on.
\<close>

definition renameLoadBalancer_monitor ::
  "prefixes \<Rightarrow> loadbalancer \<Rightarrow> string \<Rightarrow> pool \<Rightarrow> cloud \<Rightarrow> (error + unit) \<times> cloud" where
  "renameLoadBalancer_monitor px loadbalancer clusterName lbPool st =
     (if p_MonitorID lbPool \<noteq> [] then
        (case GetHealthMonitor (p_MonitorID lbPool) st of
           (Inl err, st1) \<Rightarrow> (Inl err, st1)
         | (Inr monitor, st1) \<Rightarrow>
             (let oldClusterName = fst (decomposeLBName (servicePrefix px)
                                          (Numbered (monitorPrefix px)) (m_Name monitor)) in
              if oldClusterName \<noteq> clusterName
              then UpdateHealthMonitor (m_ID monitor)
                     (replaceClusterName oldClusterName clusterName (m_Name monitor))
                     (lb_ID loadbalancer) st1
              else (Inr (), st1)))
      else (Inr (), st))"

text \<open>
  The block of the pool, entered when the pool's \<open>oldClusterName\<close> differs from
  \<open>clusterName\<close>: the monitor first, then the pool itself.
\<close>

definition renameLoadBalancer_pool ::
  "prefixes \<Rightarrow> loadbalancer \<Rightarrow> string \<Rightarrow> string \<Rightarrow> pool \<Rightarrow> cloud \<Rightarrow> (error + unit) \<times> cloud" where
  "renameLoadBalancer_pool px loadbalancer clusterName oldClusterName lbPool st =
     (case renameLoadBalancer_monitor px loadbalancer clusterName lbPool st of
        (Inl err, st1) \<Rightarrow> (Inl err, st1)
      | (Inr u, st1) \<Rightarrow>
          UpdatePool (lb_ID loadbalancer) (p_ID lbPool)
            (replaceClusterName oldClusterName clusterName (p_Name lbPool)) st1)"

text \<open>
  The body of the loop over the listeners.  The assignment with \<^verbatim>\<open>=\<close> after the pool is
  fetched overwrites the listener's \<open>oldClusterName\<close> with the pool's, and that value is
  the one the listener's new name is computed from.
\<close>

definition renameLoadBalancer_listener ::
  "prefixes \<Rightarrow> loadbalancer \<Rightarrow> string \<Rightarrow> listener \<Rightarrow> cloud \<Rightarrow> (error + unit) \<times> cloud" where
  "renameLoadBalancer_listener px loadbalancer clusterName listener st =
     (if \<not> prefix (listenerPrefix px) (l_Name listener) then (Inr (), st)
      else
        let oldClusterName = fst (decomposeLBName (servicePrefix px)
                                    (Numbered (listenerPrefix px)) (l_Name listener)) in
        if oldClusterName \<noteq> clusterName then
          (case GetPoolByListener (lb_ID loadbalancer) (l_ID listener) st of
             (Inl err, st1) \<Rightarrow> (Inl err, st1)
           | (Inr lbPool, st1) \<Rightarrow>
               (let oldClusterName = fst (decomposeLBName (servicePrefix px)
                                            (Numbered (poolPrefix px)) (p_Name lbPool)) in
                case (if oldClusterName \<noteq> clusterName
                      then renameLoadBalancer_pool px loadbalancer clusterName oldClusterName lbPool st1
                      else (Inr (), st1)) of
                  (Inl err, st2) \<Rightarrow> (Inl err, st2)
                | (Inr u, st2) \<Rightarrow>
                    UpdateListener (lb_ID loadbalancer) (l_ID listener)
                      (replaceClusterName oldClusterName clusterName (l_Name listener))
                      (map (renameTag px clusterName) (l_Tags listener)) st2))
        else (Inr (), st))"

text \<open>The loop over the listeners that the first request returned.\<close>

fun renameLoadBalancer_listeners ::
  "prefixes \<Rightarrow> loadbalancer \<Rightarrow> string \<Rightarrow> listener list \<Rightarrow> cloud \<Rightarrow> (error + unit) \<times> cloud" where
  "renameLoadBalancer_listeners px loadbalancer clusterName [] st = (Inr (), st)"
| "renameLoadBalancer_listeners px loadbalancer clusterName (listener # lbListeners) st =
     (case renameLoadBalancer_listener px loadbalancer clusterName listener st of
        (Inl err, st1) \<Rightarrow> (Inl err, st1)
      | (Inr u, st1) \<Rightarrow> renameLoadBalancer_listeners px loadbalancer clusterName lbListeners st1)"

text \<open>
  \<^verbatim>\<open>renameLoadBalancer(client, loadbalancer, lbName, clusterName)\<close>; the client is the
  state of the service.  The Go function also leaves the rewritten tags in the caller's
  \<^verbatim>\<open>loadbalancer\<close> object; the model returns what the Go function returns.
\<close>

definition renameLoadBalancer ::
  "prefixes \<Rightarrow> loadbalancer \<Rightarrow> string \<Rightarrow> string \<Rightarrow> cloud \<Rightarrow> (error + loadbalancer) \<times> cloud" where
  "renameLoadBalancer px loadbalancer lbName clusterName st =
     (case GetListenersByLoadBalancerID (lb_ID loadbalancer) st of
        (Inl err, st1) \<Rightarrow> (Inl err, st1)
      | (Inr lbListeners, st1) \<Rightarrow>
          (case renameLoadBalancer_listeners px loadbalancer clusterName lbListeners st1 of
             (Inl err, st2) \<Rightarrow> (Inl err, st2)
           | (Inr u, st2) \<Rightarrow>
               UpdateLoadBalancer (lb_ID loadbalancer) lbName
                 (map (renameTag px clusterName) (lb_Tags loadbalancer)) st2))"

text \<open>
  Modelled from the spec: the caller of \<^verbatim>\<open>renameLoadBalancer\<close> is not among the
  sources.  The spec's \<open>migrate\<close> leaves a load balancer that is not ours unchanged and
  without error, and runs the cascade otherwise; the test is the one of
  \<^verbatim>\<open>lbHasOldClusterName\<close>, and the new name \<open>lbName\<close> comes from the caller as in
  \<^verbatim>\<open>renameLoadBalancer\<close>.
\<close>

definition migrate ::
  "prefixes \<Rightarrow> loadbalancer \<Rightarrow> string \<Rightarrow> string \<Rightarrow> cloud \<Rightarrow> (error + loadbalancer) \<times> cloud" where
  "migrate px loadbalancer lbName clusterName st =
     (if lbHasOldClusterName px loadbalancer clusterName
      then renameLoadBalancer px loadbalancer lbName clusterName st
      else (Inr loadbalancer, st))"

text \<open>The requests that a run from \<open>st\<close> to \<open>st'\<close> added to the log.\<close>

definition issued :: "cloud \<Rightarrow> cloud \<Rightarrow> (call \<times> error option) list" where
  "issued st st' = drop (length (calls st)) (calls st')"

text \<open>The upstream values of the prefix constants.\<close>

definition px0 :: prefixes where
  "px0 = \<lparr>servicePrefix = ''kube_service_'', listenerPrefix = ''listener_'',
           poolPrefix = ''pool_'', monitorPrefix = ''monitor_''\<rparr>"

section \<open>The pattern of load balancer names, as a relation\<close>

text \<open>
  What the regular expression \<^verbatim>\<open>prefix + servicePrefix + "(.+)_([^_]+)_([^_]+)"\<close>
  matches, stated without any search: \<open>resource_prefix_text\<close> are the texts the resource
  prefix matches, and \<open>pattern_match sp rp raw i (c, n, m)\<close> says that the pattern
  matches \<open>raw\<close> from offset \<open>i\<close> with the three groups \<open>c\<close>, \<open>n\<close> and \<open>m\<close>.
\<close>

definition resource_prefix_text :: "resource_prefix \<Rightarrow> string \<Rightarrow> bool" where
  "resource_prefix_text rp w =
     (case rp of
        NoPrefix \<Rightarrow> w = []
      | Numbered p \<Rightarrow> (\<exists>ds. ds \<noteq> [] \<and> list_all is_digit ds \<and> w = p @ ds @ ''_''))"

definition pattern_match :: "string \<Rightarrow> resource_prefix \<Rightarrow> string \<Rightarrow> nat \<Rightarrow> string \<times> string \<times> string \<Rightarrow> bool" where
  "pattern_match sp rp raw i g =
     (case g of (c, n, m) \<Rightarrow>
        (\<exists>pre w rest. raw = pre @ w @ sp @ c @ ''_'' @ n @ ''_'' @ m @ rest \<and> length pre = i
           \<and> resource_prefix_text rp w
           \<and> c \<noteq> [] \<and> CHR 0x0A \<notin> set c
           \<and> n \<noteq> [] \<and> CHR ''_'' \<notin> set n
           \<and> m \<noteq> [] \<and> CHR ''_'' \<notin> set m))"

section \<open>Logs of requests\<close>

text \<open>The outcome a request is logged with, from the result its caller got.\<close>

definition outcome :: "error + 'a \<Rightarrow> error option" where
  "outcome r = (case r of Inl e \<Rightarrow> Some e | Inr x \<Rightarrow> None)"

definition served :: "(call \<times> error option) list \<Rightarrow> bool" where
  "served new = list_all (\<lambda>c. snd c = None) new"

text \<open>
  A piece of log \<open>new\<close> and the result \<open>r\<close> of the run that wrote it: every request but
  the last was served; when the run returned an error, the last request is the one
  that failed, with that very error; when it returned a value, the last request was
  served too.
\<close>

definition stops_at_failure :: "(call \<times> error option) list \<Rightarrow> error + 'a \<Rightarrow> bool" where
  "stops_at_failure new r =
     (case r of
        Inl e \<Rightarrow> new \<noteq> [] \<and> snd (last new) = Some e \<and> served (butlast new)
      | Inr x \<Rightarrow> served new)"

definition run_log :: "cloud \<Rightarrow> error + 'a \<Rightarrow> cloud \<Rightarrow> bool" where
  "run_log st r st' = (\<exists>new. calls st' = calls st @ new \<and> stops_at_failure new r)"

section \<open>An example tree\<close>

text \<open>
  A load balancer of the old cluster \<open>A\<close> with one listener of the cascade and one
  foreign listener, each with its pool and the pool's monitor.
\<close>

definition lbA :: loadbalancer where
  "lbA = \<lparr>lb_ID = ''lb1'', lb_Name = ''kube_service_A_ns_svc'',
           lb_Tags = [''kube_service_A_ns_svc'', ''team:payments'']\<rparr>"

definition cloudA :: cloud where
  "cloudA = \<lparr>loadbalancers = [lbA],
     listeners = [\<lparr>l_ID = ''l1'', l_Name = ''listener_0_kube_service_A_ns_svc'',
                    l_Tags = [''kube_service_A_ns_svc''], l_lb = ''lb1''\<rparr>,
                  \<lparr>l_ID = ''l2'', l_Name = ''custom'', l_Tags = [''kube_service_A_ns_svc''], l_lb = ''lb1''\<rparr>],
     pools = [\<lparr>p_ID = ''p1'', p_Name = ''pool_0_kube_service_A_ns_svc'', p_MonitorID = ''m1'',
                p_lb = ''lb1'', p_listener = ''l1''\<rparr>,
              \<lparr>p_ID = ''p2'', p_Name = ''pool_1_kube_service_A_ns_svc'', p_MonitorID = ''m2'',
                p_lb = ''lb1'', p_listener = ''l2''\<rparr>],
     monitors = [\<lparr>m_ID = ''m1'', m_Name = ''monitor_0_kube_service_A_ns_svc''\<rparr>,
                 \<lparr>m_ID = ''m2'', m_Name = ''monitor_1_kube_service_A_ns_svc''\<rparr>],
     calls = [], pending = []\<rparr>"



section \<open>The requests of a run\<close>

text \<open>The links of the pools: identifier, monitor, load balancer and listener of each pool.\<close>

definition links :: "cloud \<Rightarrow> (string \<times> string \<times> string \<times> string) list" where
  "links st = map (\<lambda>p. (p_ID p, p_MonitorID p, p_lb p, p_listener p)) (pools st)"

text \<open>
  The requests one round of the loop may send for the listener \<open>l\<close>, given the links
  \<open>lk\<close> of the pools: the pool of \<open>l\<close> is fetched; a monitor is fetched or renamed only if
  it is the monitor of a pool of \<open>l\<close>; a pool is renamed only if it is a pool of \<open>l\<close>; the
  listener renamed is \<open>l\<close> itself, with its tags rewritten one by one.  A listener without
  the listener prefix has no request at all.
\<close>

definition body_call ::
  "prefixes \<Rightarrow> loadbalancer \<Rightarrow> string \<Rightarrow> (string \<times> string \<times> string \<times> string) list \<Rightarrow> listener \<Rightarrow> call \<Rightarrow> bool" where
  "body_call px lb cn lk l c =
     (prefix (listenerPrefix px) (l_Name l) \<and>
      (case c of
         GetPool lbID lid \<Rightarrow> lbID = lb_ID lb \<and> lid = l_ID l
       | GetMonitor mid \<Rightarrow> mid \<noteq> [] \<and> (\<exists>pid. (pid, mid, lb_ID lb, l_ID l) \<in> set lk)
       | PutMonitor mid name lbID \<Rightarrow> mid \<noteq> [] \<and> (\<exists>pid. (pid, mid, lb_ID lb, l_ID l) \<in> set lk)
       | PutPool lbID pid name \<Rightarrow> (\<exists>mid. (pid, mid, lb_ID lb, l_ID l) \<in> set lk)
       | PutListener lbID lid name tags \<Rightarrow>
           lbID = lb_ID lb \<and> lid = l_ID l \<and> tags = map (renameTag px cn) (l_Tags l)
       | _ \<Rightarrow> False))"

text \<open>The requests of a whole run for the listeners \<open>ls\<close> of the load balancer.\<close>

definition run_call ::
  "prefixes \<Rightarrow> loadbalancer \<Rightarrow> string \<Rightarrow> (string \<times> string \<times> string \<times> string) list \<Rightarrow> listener list \<Rightarrow> call \<Rightarrow> bool" where
  "run_call px lb cn lk ls c =
     (c = ListListeners (lb_ID lb)
      \<or> (\<exists>l\<in>set ls. body_call px lb cn lk l c)
      \<or> (\<exists>name. c = PutLoadBalancer (lb_ID lb) name (map (renameTag px cn) (lb_Tags lb))))"

text \<open>The log grows from \<open>st\<close> to \<open>st'\<close> by requests that all satisfy \<open>P\<close>.\<close>

definition log_all :: "(call \<Rightarrow> bool) \<Rightarrow> cloud \<Rightarrow> cloud \<Rightarrow> bool" where
  "log_all P st st' = (\<exists>new. calls st' = calls st @ new \<and> list_all (\<lambda>x. P (fst x)) new)"

section \<open>Tags\<close>



section \<open>The order of the updates\<close>

text \<open>
  Where a run stands between two updates: \<open>Idle\<close>, between two subtrees (nothing of the
  current listener is updated yet, or its listener update is done); \<open>MonitorDone mid\<close>,
  the last update was the one of the monitor \<open>mid\<close>; \<open>PoolDone pid\<close>, the last update was
  the one of the pool \<open>pid\<close>; \<open>Finished\<close>, the load balancer is updated.
\<close>

datatype phase = Idle | MonitorDone string | PoolDone string | Finished

text \<open>
  The updates a phase admits.  Reads are always admitted.  After the update of a monitor
  only the update of a pool that owns this monitor may come, after the update of a pool
  only the update of a listener this pool belongs to; the update of the load balancer
  comes between two subtrees, and no update comes after it.  \<open>lk\<close> are the links of the
  pools.
\<close>

fun update_step :: "(string \<times> string \<times> string \<times> string) list \<Rightarrow> phase \<Rightarrow> call \<Rightarrow> phase option" where
  "update_step lk ph (ListListeners lbID) = Some ph"
| "update_step lk ph (GetPool lbID lid) = Some ph"
| "update_step lk ph (GetMonitor mid) = Some ph"
| "update_step lk Idle (PutMonitor mid name lbID) = Some (MonitorDone mid)"
| "update_step lk Idle (PutPool lbID pid name) = Some (PoolDone pid)"
| "update_step lk (MonitorDone mid) (PutPool lbID pid name) =
     (if list_ex (\<lambda>(i, m, b, l). i = pid \<and> m = mid) lk then Some (PoolDone pid) else None)"
| "update_step lk Idle (PutListener lbID lid name tags) = Some Idle"
| "update_step lk (PoolDone pid) (PutListener lbID lid name tags) =
     (if list_ex (\<lambda>(i, m, b, l). i = pid \<and> l = lid) lk then Some Idle else None)"
| "update_step lk Idle (PutLoadBalancer lbID name tags) = Some Finished"
| "update_step lk ph c = None"

fun phase_after :: "(string \<times> string \<times> string \<times> string) list \<Rightarrow> phase \<Rightarrow> call list \<Rightarrow> phase option" where
  "phase_after lk ph [] = Some ph"
| "phase_after lk ph (c # cs) =
     (case update_step lk ph c of None \<Rightarrow> None | Some ph' \<Rightarrow> phase_after lk ph' cs)"

text \<open>A sequence of requests keeps the order monitor, pool, listener, load balancer.\<close>

definition bottom_up :: "(string \<times> string \<times> string \<times> string) list \<Rightarrow> call list \<Rightarrow> bool" where
  "bottom_up lk cs = (phase_after lk Idle cs \<noteq> None)"

text \<open>The log grows from \<open>st\<close> to \<open>st'\<close> by requests that lead from phase \<open>ph\<close> to \<open>ph'\<close>.\<close>

definition moves :: "(string \<times> string \<times> string \<times> string) list \<Rightarrow> phase \<Rightarrow> cloud \<Rightarrow> cloud \<Rightarrow> phase \<Rightarrow> bool" where
  "moves lk ph st st' ph' =
     (\<exists>new. calls st' = calls st @ new \<and> phase_after lk ph (map fst new) = Some ph')"

section \<open>What a run leaves untouched\<close>

text \<open>
  \<open>ys\<close> is \<open>xs\<close> with the same identifiers in the same places, and with every resource
  whose identifier is not in \<open>ids\<close> as it was.
\<close>

definition untouched :: "('a \<Rightarrow> string) \<Rightarrow> string set \<Rightarrow> 'a list \<Rightarrow> 'a list \<Rightarrow> bool" where
  "untouched ident ids xs ys = list_all2 (\<lambda>x y. ident y = ident x \<and> (ident x \<notin> ids \<longrightarrow> y = x)) xs ys"

text \<open>The identifiers that the updates in a piece of log name.\<close>

definition renamed_listeners :: "(call \<times> error option) list \<Rightarrow> string set" where
  "renamed_listeners new = {lid. \<exists>lbID name tags out. (PutListener lbID lid name tags, out) \<in> set new}"

definition renamed_pools :: "(call \<times> error option) list \<Rightarrow> string set" where
  "renamed_pools new = {pid. \<exists>lbID name out. (PutPool lbID pid name, out) \<in> set new}"

definition renamed_monitors :: "(call \<times> error option) list \<Rightarrow> string set" where
  "renamed_monitors new = {mid. \<exists>name lbID out. (PutMonitor mid name lbID, out) \<in> set new}"

text \<open>
  The service went from \<open>st\<close> to \<open>st'\<close> by requests that it logged, and only the resources
  that an update in this piece of log names can differ.
\<close>

definition follows :: "cloud \<Rightarrow> cloud \<Rightarrow> bool" where
  "follows st st' =
     (\<exists>new. calls st' = calls st @ new
        \<and> untouched l_ID (renamed_listeners new) (listeners st) (listeners st')
        \<and> untouched p_ID (renamed_pools new) (pools st) (pools st')
        \<and> untouched m_ID (renamed_monitors new) (monitors st) (monitors st'))"

section \<open>The example tree after a run\<close>







section \<open>Proofs\<close>

subsection \<open>The export location split\<close>

lemma last_index_from_none:
  "last_index_from s c k = - 1 \<longleftrightarrow> c \<notin> set (take k s)" if "k \<le> length s"
  using that
proof (induction k)
  case 0
  then show ?case by simp
next
  case (Suc k)
  then have "take (Suc k) s = take k s @ [s ! k]"
    by (simp add: take_Suc_conv_app_nth)
  with Suc show ?case by auto
qed

lemma last_index_from_found:
  "last_index_from s c k = int i \<longleftrightarrow> i < k \<and> s ! i = c \<and> c \<notin> set (take (k - Suc i) (drop (Suc i) s))"
  if "k \<le> length s"
  using that
proof (induction k)
  case 0
  then show ?case by simp
next
  case (Suc k)
  show ?case
  proof (cases "s ! k = c")
    case True
    show ?thesis
    proof (cases "i = k")
      case True
      with \<open>s ! k = c\<close> show ?thesis by simp
    next
      case False
      have "i < k \<Longrightarrow> c \<in> set (take (k - i) (drop (Suc i) s))"
      proof -
        assume "i < k"
        then have "(take (k - i) (drop (Suc i) s)) ! (k - Suc i) = s ! k"
          using Suc.prems by simp
        moreover have "k - Suc i < length (take (k - i) (drop (Suc i) s))"
          using \<open>i < k\<close> Suc.prems by simp
        ultimately show ?thesis
          using True nth_mem by metis
      qed
      with False True show ?thesis by auto
    qed
  next
    case False
    have step: "i < k \<Longrightarrow> take (Suc k - Suc i) (drop (Suc i) s) = take (k - Suc i) (drop (Suc i) s) @ [s ! k]"
    proof -
      assume "i < k"
      then have "Suc k - Suc i = Suc (k - Suc i)" by simp
      moreover have "k - Suc i < length (drop (Suc i) s)"
        using \<open>i < k\<close> Suc.prems by simp
      moreover have "drop (Suc i) s ! (k - Suc i) = s ! k"
        using \<open>i < k\<close> Suc.prems by simp
      ultimately show ?thesis
        by (simp add: take_Suc_conv_app_nth)
    qed
    show ?thesis
    proof (cases "i < k")
      case True
      with False Suc step show ?thesis by auto
    next
      case False
      with \<open>s ! k \<noteq> c\<close> Suc show ?thesis
        by (cases "i = k") auto
    qed
  qed
qed

lemma last_index_from_range: "last_index_from s c k = - 1 \<or> (\<exists>i<k. last_index_from s c k = int i)"
  by (induction k) (auto simp: less_Suc_eq)


lemma LastIndexByte_cases:
  obtains (none) "LastIndexByte s c = - 1" "c \<notin> set s"
  | (found) i where "LastIndexByte s c = int i" "i < length s" "s ! i = c"
      "c \<notin> set (drop (Suc i) s)"
proof -
  consider "LastIndexByte s c = - 1" | i where "LastIndexByte s c = int i"
    using last_index_from_range [of s c "length s"] by (auto simp: LastIndexByte_def)
  then show thesis
  proof cases
    case 1
    then have "c \<notin> set s"
      using last_index_from_none [of "length s" s c] by (simp add: LastIndexByte_def)
    with 1 show ?thesis by (rule none)
  next
    case (2 i)
    then have "i < length s \<and> s ! i = c \<and> c \<notin> set (drop (Suc i) s)"
      using last_index_from_found [of "length s" s c i] by (simp add: LastIndexByte_def)
    with 2 show ?thesis using found by blast
  qed
qed

text \<open>
  C10.  \<open>splitExportLocation\<close> returns an error exactly when the path holds no \<open>:\<close> or its
  last \<open>:\<close> is its first byte; otherwise it returns the address and the location, the
  path is the address, a \<open>:\<close> and the location, and the location holds no \<open>:\<close> (so the
  split is at the last \<open>:\<close>).
\<close>

theorem splitExportLocation_last_colon:
  "case splitExportLocation loc of
     Inl e \<Rightarrow> CHR '':'' \<notin> set (Path loc) \<or> (\<exists>rest. Path loc = CHR '':'' # rest \<and> CHR '':'' \<notin> set rest)
   | Inr (address, location) \<Rightarrow>
       \<not> (CHR '':'' \<notin> set (Path loc) \<or> (\<exists>rest. Path loc = CHR '':'' # rest \<and> CHR '':'' \<notin> set rest))
       \<and> Path loc = address @ '':'' @ location \<and> CHR '':'' \<notin> set location"
proof -
  consider (none) "LastIndexByte (Path loc) (CHR '':'') = - 1" "CHR '':'' \<notin> set (Path loc)"
    | (found) i where "LastIndexByte (Path loc) (CHR '':'') = int i" "i < length (Path loc)"
        "Path loc ! i = CHR '':''" "CHR '':'' \<notin> set (drop (Suc i) (Path loc))"
    by (rule LastIndexByte_cases [of "Path loc" "CHR '':''"]) blast+
  then show ?thesis
  proof cases
  case none
  then show ?thesis by (simp add: splitExportLocation_def)
next
  case (found i)
  have split: "Path loc = take i (Path loc) @ CHR '':'' # drop (Suc i) (Path loc)"
    using found(2,3) id_take_nth_drop by metis
  show ?thesis
  proof (cases i)
    case 0
    with found split have "Path loc = CHR '':'' # drop 1 (Path loc)" "CHR '':'' \<notin> set (drop 1 (Path loc))"
      by simp_all
    with found 0 show ?thesis by (auto simp: splitExportLocation_def)
  next
    case (Suc j)
    have "Path loc \<noteq> CHR '':'' # rest \<or> CHR '':'' \<in> set rest" for rest
    proof (cases "Path loc = CHR '':'' # rest")
      case True
      then have "rest ! j = CHR '':''" "j < length rest"
        using found(2,3) Suc by auto
      then show ?thesis using nth_mem by metis
    next
      case False
      then show ?thesis by simp
    qed
    moreover have "CHR '':'' \<in> set (Path loc)"
      using found(2,3) nth_mem by metis
    moreover have "nat (int i + 1) = Suc i" "nat (int i) = i" by simp_all
    moreover have "\<not> int i \<le> 0" using Suc by simp
    ultimately show ?thesis
      using found(4) split unfolding splitExportLocation_def found(1) Let_def
      by (simp del: of_nat_Suc)
  qed
qed
qed

theorem splitExportLocation_last_colon_witness:
  "splitExportLocation \<lparr>Path = ''10.0.0.1:6789,10.0.0.2:6789:/volumes/v1''\<rparr>
     = Inr (''10.0.0.1:6789,10.0.0.2:6789'', ''/volumes/v1'')
   \<and> ''10.0.0.1:6789,10.0.0.2:6789:/volumes/v1'' = ''10.0.0.1:6789,10.0.0.2:6789'' @ '':'' @ ''/volumes/v1''
   \<and> CHR '':'' \<notin> set ''/volumes/v1''"
proof -
  have e: "splitExportLocation \<lparr>Path = ''10.0.0.1:6789,10.0.0.2:6789:/volumes/v1''\<rparr>
     = Inr (''10.0.0.1:6789,10.0.0.2:6789'', ''/volumes/v1'')"
    by code_simp
  from splitExportLocation_last_colon [of "\<lparr>Path = ''10.0.0.1:6789,10.0.0.2:6789:/volumes/v1''\<rparr>"]
  show ?thesis unfolding e by simp
qed

subsection \<open>The name codec\<close>

lemma strip_literal_Some: "strip_literal p s = Some r \<longleftrightarrow> s = p @ r"
  by (auto simp: strip_literal_def prefix_def)

lemma underscore_no_digit: "\<not> is_digit (CHR ''_'')"
  by (simp add: is_digit_def)

lemma strip_resource_prefix_Some:
  "strip_resource_prefix rp s = Some r \<longleftrightarrow> (\<exists>w. resource_prefix_text rp w \<and> s = w @ r)"
proof (cases rp)
  case NoPrefix
  then show ?thesis by (auto simp: resource_prefix_text_def)
next
  case (Numbered p)
  show ?thesis
  proof
    assume a: "strip_resource_prefix rp s = Some r"
    then obtain t where t: "s = p @ t"
      and d: "dropWhile is_digit t = CHR ''_'' # r" and n: "takeWhile is_digit t \<noteq> []"
      using Numbered by (auto simp: strip_literal_Some split: option.splits list.splits if_splits)
    have "t = takeWhile is_digit t @ CHR ''_'' # r"
      using d takeWhile_dropWhile_id [of is_digit t] by simp
    moreover have "list_all is_digit (takeWhile is_digit t)"
      by (simp add: list_all_iff) (meson set_takeWhileD)
    ultimately have "resource_prefix_text rp (p @ takeWhile is_digit t @ ''_'') \<and> s = (p @ takeWhile is_digit t @ ''_'') @ r"
      using n t Numbered by (auto simp: resource_prefix_text_def)
    then show "\<exists>w. resource_prefix_text rp w \<and> s = w @ r" by blast
  next
    assume "\<exists>w. resource_prefix_text rp w \<and> s = w @ r"
    then obtain ds where ds: "ds \<noteq> []" "list_all is_digit ds" and s: "s = p @ ds @ CHR ''_'' # r"
      using Numbered by (auto simp: resource_prefix_text_def)
    have "takeWhile is_digit (ds @ CHR ''_'' # r) = ds" "dropWhile is_digit (ds @ CHR ''_'' # r) = CHR ''_'' # r"
      using ds(2) underscore_no_digit by (simp_all add: list_all_iff takeWhile_append2 dropWhile_append2)
    then show "strip_resource_prefix rp s = Some r"
      using Numbered ds(1) s by (simp add: strip_literal_def)
  qed
qed

lemma takeWhile_sep: "x \<notin> set n \<Longrightarrow> takeWhile (\<lambda>y. y \<noteq> x) (n @ x # t) = n"
  by (induction n) auto

lemma dropWhile_sep: "x \<notin> set n \<Longrightarrow> dropWhile (\<lambda>y. y \<noteq> x) (n @ x # t) = x # t"
  by (induction n) auto

lemma takeWhile_all: "x \<notin> set n \<Longrightarrow> takeWhile (\<lambda>y. y \<noteq> x) n = n"
  by (induction n) auto

lemma fields_at_Some:
  "fields_at r p = Some (c, n, m) \<longleftrightarrow>
     (\<exists>rest. r = c @ ''_'' @ n @ ''_'' @ m @ rest \<and> length c = p
        \<and> c \<noteq> [] \<and> CHR 0x0A \<notin> set c \<and> n \<noteq> [] \<and> CHR ''_'' \<notin> set n
        \<and> m \<noteq> [] \<and> CHR ''_'' \<notin> set m \<and> (rest = [] \<or> hd rest = CHR ''_''))"
proof
  assume a: "fields_at r p = Some (c, n, m)"
  let ?P = "\<lambda>x. x \<noteq> CHR ''_''"
  from a obtain r1 d r2 where c: "c = take p r" "c \<noteq> []" "CHR 0x0A \<notin> set c"
    and r1: "drop p r = CHR ''_'' # r1"
    and n: "n = takeWhile ?P r1" "n \<noteq> []"
    and r2: "dropWhile ?P r1 = d # r2"
    and m: "m = takeWhile ?P r2" "m \<noteq> []"
    by (auto simp: fields_at_def Let_def split: list.splits if_splits)
  have d: "d = CHR ''_''" using r2 hd_dropWhile [of ?P r1] by auto
  have "r = take p r @ drop p r" by simp
  also have "\<dots> = c @ CHR ''_'' # r1" using c r1 by simp
  also have "r1 = n @ CHR ''_'' # r2"
    using n r2 d takeWhile_dropWhile_id [of ?P r1] by simp
  also have "r2 = m @ dropWhile ?P r2"
    using m by simp
  finally have "r = c @ ''_'' @ n @ ''_'' @ m @ dropWhile ?P r2" by simp
  moreover have "length c = p"
  proof -
    have "p < length r" using r1 by (metis drop_all list.distinct(1) not_le)
    then show ?thesis using c by simp
  qed
  moreover have "CHR ''_'' \<notin> set n" "CHR ''_'' \<notin> set m"
    using n m by (auto dest: set_takeWhileD)
  moreover have "dropWhile ?P r2 = [] \<or> hd (dropWhile ?P r2) = CHR ''_''"
    using hd_dropWhile [of ?P r2] by auto
  ultimately show "\<exists>rest. r = c @ ''_'' @ n @ ''_'' @ m @ rest \<and> length c = p
        \<and> c \<noteq> [] \<and> CHR 0x0A \<notin> set c \<and> n \<noteq> [] \<and> CHR ''_'' \<notin> set n
        \<and> m \<noteq> [] \<and> CHR ''_'' \<notin> set m \<and> (rest = [] \<or> hd rest = CHR ''_'')"
    using c n m by blast
next
  let ?P = "\<lambda>x. x \<noteq> CHR ''_''"
  assume "\<exists>rest. r = c @ ''_'' @ n @ ''_'' @ m @ rest \<and> length c = p
        \<and> c \<noteq> [] \<and> CHR 0x0A \<notin> set c \<and> n \<noteq> [] \<and> CHR ''_'' \<notin> set n
        \<and> m \<noteq> [] \<and> CHR ''_'' \<notin> set m \<and> (rest = [] \<or> hd rest = CHR ''_'')"
  then obtain rest where r: "r = c @ CHR ''_'' # n @ CHR ''_'' # m @ rest" and p: "length c = p"
    and c: "c \<noteq> []" "CHR 0x0A \<notin> set c" and n: "n \<noteq> []" "CHR ''_'' \<notin> set n"
    and m: "m \<noteq> []" "CHR ''_'' \<notin> set m" and rest: "rest = [] \<or> hd rest = CHR ''_''"
    by auto
  have tn: "takeWhile ?P (n @ CHR ''_'' # m @ rest) = n" "dropWhile ?P (n @ CHR ''_'' # m @ rest) = CHR ''_'' # m @ rest"
    using n(2) by (simp_all add: takeWhile_sep dropWhile_sep)
  have tm: "takeWhile ?P (m @ rest) = m"
  proof (cases rest)
    case Nil
    then show ?thesis using m(2) by (simp add: takeWhile_all)
  next
    case (Cons x xs)
    then have "x = CHR ''_''" using rest by simp
    then show ?thesis using m(2) Cons by (simp add: takeWhile_sep)
  qed
  show "fields_at r p = Some (c, n, m)"
    unfolding fields_at_def using r p c n(1) m(1) tn tm by (simp add: Let_def)
qed

lemma fields_at_covers:
  assumes "r = c @ ''_'' @ n @ ''_'' @ m' @ rest'" "c \<noteq> []" "CHR 0x0A \<notin> set c"
    "n \<noteq> []" "CHR ''_'' \<notin> set n" "m' \<noteq> []" "CHR ''_'' \<notin> set m'"
  shows "\<exists>m. fields_at r (length c) = Some (c, n, m) \<and> length m' \<le> length m"
proof -
  let ?P = "\<lambda>x. x \<noteq> CHR ''_''"
  let ?m = "m' @ takeWhile ?P rest'"
  have "r = c @ ''_'' @ n @ ''_'' @ ?m @ dropWhile ?P rest'"
    using assms(1) by simp
  moreover have "CHR ''_'' \<notin> set ?m"
    using assms(7) by (auto dest: set_takeWhileD)
  moreover have "dropWhile ?P rest' = [] \<or> hd (dropWhile ?P rest') = CHR ''_''"
    using hd_dropWhile [of ?P rest'] by auto
  ultimately have "fields_at r (length c) = Some (c, n, ?m)"
    unfolding fields_at_Some using assms(2-6) by blast
  then show ?thesis by auto
qed

lemma greedy_fields_None: "greedy_fields r k = None \<Longrightarrow> p \<le> k \<Longrightarrow> fields_at r p = None"
proof (induction k)
  case 0
  then show ?case by (simp add: fields_at_def)
next
  case (Suc k)
  then show ?case by (cases "p = Suc k") (auto split: option.splits)
qed

lemma greedy_fields_Some:
  "greedy_fields r k = Some g \<Longrightarrow>
     \<exists>p\<le>k. fields_at r p = Some g \<and> (\<forall>q. p < q \<and> q \<le> k \<longrightarrow> fields_at r q = None)"
proof (induction k)
  case 0
  then show ?case by simp
next
  case (Suc k)
  show ?case
  proof (cases "fields_at r (Suc k)")
    case None
    with Suc obtain p where "p \<le> k" "fields_at r p = Some g" "\<forall>q. p < q \<and> q \<le> k \<longrightarrow> fields_at r q = None"
      by auto
    with None show ?thesis
      by (intro exI [of _ p]) (auto simp: le_Suc_eq)
  next
    case (Some a)
    with Suc.prems show ?thesis by (intro exI [of _ "Suc k"]) auto
  qed
qed


lemma pattern_match_head:
  "pattern_match sp rp s 0 (c, n, m) \<Longrightarrow>
     \<exists>r' m2. strip_resource_prefix rp s = Some (sp @ r') \<and> fields_at r' (length c) = Some (c, n, m2)
       \<and> length m \<le> length m2 \<and> length c \<le> length r'"
proof -
  assume "pattern_match sp rp s 0 (c, n, m)"
  then obtain w rest where s: "s = w @ sp @ c @ ''_'' @ n @ ''_'' @ m @ rest"
    and w: "resource_prefix_text rp w"
    and f: "c \<noteq> []" "CHR 0x0A \<notin> set c" "n \<noteq> []" "CHR ''_'' \<notin> set n" "m \<noteq> []" "CHR ''_'' \<notin> set m"
    by (auto simp: pattern_match_def)
  let ?r = "c @ ''_'' @ n @ ''_'' @ m @ rest"
  have "strip_resource_prefix rp s = Some (sp @ ?r)"
    unfolding strip_resource_prefix_Some using s w by auto
  moreover obtain m2 where "fields_at ?r (length c) = Some (c, n, m2)" "length m \<le> length m2"
    using fields_at_covers [OF refl f] by blast
  moreover have "length c \<le> length ?r" by simp
  ultimately show ?thesis by blast
qed

lemma match_here_None:
  assumes "match_here sp rp s = None"
  shows "\<not> pattern_match sp rp s 0 (c, n, m)"
proof
  assume "pattern_match sp rp s 0 (c, n, m)"
  then obtain r' m2 where a: "strip_resource_prefix rp s = Some (sp @ r')"
    and b: "fields_at r' (length c) = Some (c, n, m2)" and l: "length c \<le> length r'"
    using pattern_match_head by blast
  have "strip_literal sp (sp @ r') = Some r'" by (simp add: strip_literal_Some)
  with assms a have "greedy_fields r' (length r') = None"
    by (simp add: match_here_def)
  with l b show False using greedy_fields_None by fastforce
qed

lemma match_here_Some:
  assumes "match_here sp rp s = Some (c, n, m)"
  shows "pattern_match sp rp s 0 (c, n, m)"
    and "pattern_match sp rp s 0 (c', n', m') \<Longrightarrow> length c' \<le> length c"
    and "pattern_match sp rp s 0 (c, n', m') \<Longrightarrow> n' = n \<and> length m' \<le> length m"
proof -
  from assms obtain r r' where r: "strip_resource_prefix rp s = Some r"
    and r': "strip_literal sp r = Some r'" and g: "greedy_fields r' (length r') = Some (c, n, m)"
    by (auto simp: match_here_def split: option.splits)
  from g obtain p where p: "p \<le> length r'" "fields_at r' p = Some (c, n, m)"
    and q: "\<And>q. p < q \<Longrightarrow> q \<le> length r' \<Longrightarrow> fields_at r' q = None"
    using greedy_fields_Some by blast
  from r obtain w where w: "resource_prefix_text rp w" "s = w @ r"
    unfolding strip_resource_prefix_Some by blast
  from r' have rr: "r = sp @ r'" by (simp add: strip_literal_Some)
  from p(2) obtain rest where f: "r' = c @ ''_'' @ n @ ''_'' @ m @ rest" "length c = p"
    "c \<noteq> []" "CHR 0x0A \<notin> set c" "n \<noteq> []" "CHR ''_'' \<notin> set n" "m \<noteq> []" "CHR ''_'' \<notin> set m"
    unfolding fields_at_Some by blast
  have "s = [] @ w @ sp @ c @ ''_'' @ n @ ''_'' @ m @ rest"
    using w(2) rr f(1) by simp
  then show "pattern_match sp rp s 0 (c, n, m)"
    unfolding pattern_match_def using w(1) f(3-) by (simp del: append_Nil) blast
  have other: "\<exists>m2. fields_at r' (length c') = Some (c', n', m2) \<and> length c' \<le> length r'
      \<and> length m' \<le> length m2" if h: "pattern_match sp rp s 0 (c', n', m')" for c' n' m'
  proof -
    obtain r2 m2 where a: "strip_resource_prefix rp s = Some (sp @ r2)"
      and b: "fields_at r2 (length c') = Some (c', n', m2)" and l: "length m' \<le> length m2"
         "length c' \<le> length r2"
      using pattern_match_head [OF h] by blast
    from a r rr have "r2 = r'" by simp
    with b l show ?thesis by blast
  qed
  show "length c' \<le> length c" if "pattern_match sp rp s 0 (c', n', m')"
  proof (rule ccontr)
    assume "\<not> length c' \<le> length c"
    then have "p < length c'" using f(2) by simp
    moreover from other [OF that] obtain m2 where "fields_at r' (length c') = Some (c', n', m2)" "length c' \<le> length r'"
      by blast
    ultimately show False using q by fastforce
  qed
  show "n' = n \<and> length m' \<le> length m" if "pattern_match sp rp s 0 (c, n', m')"
  proof -
    from other [OF that] obtain m2 where "fields_at r' (length c) = Some (c, n', m2)" "length m' \<le> length m2"
      by blast
    with p(2) f(2) show ?thesis by simp
  qed
qed

lemma pattern_match_drop:
  "pattern_match sp rp raw i g \<longleftrightarrow> i \<le> length raw \<and> pattern_match sp rp (drop i raw) 0 g"
proof (cases g)
  case (fields c n m)
  show ?thesis
  proof
    assume "pattern_match sp rp raw i g"
    then obtain pre w rest where "raw = pre @ w @ sp @ c @ ''_'' @ n @ ''_'' @ m @ rest" "length pre = i"
      and x: "resource_prefix_text rp w" "c \<noteq> []" "CHR 0x0A \<notin> set c" "n \<noteq> []" "CHR ''_'' \<notin> set n"
        "m \<noteq> []" "CHR ''_'' \<notin> set m"
      using fields by (auto simp: pattern_match_def)
    then have "i \<le> length raw" "drop i raw = [] @ w @ sp @ c @ ''_'' @ n @ ''_'' @ m @ rest"
      by simp_all
    with x show "i \<le> length raw \<and> pattern_match sp rp (drop i raw) 0 g"
      unfolding pattern_match_def fields by (simp del: append_Nil) blast
  next
    assume a: "i \<le> length raw \<and> pattern_match sp rp (drop i raw) 0 g"
    then obtain w rest where "drop i raw = w @ sp @ c @ ''_'' @ n @ ''_'' @ m @ rest"
      and x: "resource_prefix_text rp w" "c \<noteq> []" "CHR 0x0A \<notin> set c" "n \<noteq> []" "CHR ''_'' \<notin> set n"
        "m \<noteq> []" "CHR ''_'' \<notin> set m"
      using fields by (auto simp: pattern_match_def)
    then have "raw = take i raw @ w @ sp @ c @ ''_'' @ n @ ''_'' @ m @ rest" "length (take i raw) = i"
      using a append_take_drop_id [of i raw] by simp_all
    with x show "pattern_match sp rp raw i g"
      unfolding pattern_match_def fields by blast
  qed
qed

lemma first_submatch_None:
  "first_submatch sp rp raw = None \<Longrightarrow> i \<le> length raw \<Longrightarrow> match_here sp rp (drop i raw) = None"
proof (induction raw arbitrary: i)
  case Nil
  then show ?case by simp
next
  case (Cons x xs)
  then show ?case by (cases i) (auto split: option.splits)
qed

lemma first_submatch_Some:
  "first_submatch sp rp raw = Some g \<Longrightarrow>
     \<exists>i\<le>length raw. match_here sp rp (drop i raw) = Some g
        \<and> (\<forall>j<i. match_here sp rp (drop j raw) = None)"
proof (induction raw)
  case Nil
  then show ?case by simp
next
  case (Cons x xs)
  show ?case
  proof (cases "match_here sp rp (x # xs)")
    case None
    with Cons obtain i where i: "i \<le> length xs" "match_here sp rp (drop i xs) = Some g"
      "\<forall>j<i. match_here sp rp (drop j xs) = None"
      by auto
    have "\<forall>j<Suc i. match_here sp rp (drop j (x # xs)) = None"
    proof (intro allI impI)
      fix j assume "j < Suc i"
      then show "match_here sp rp (drop j (x # xs)) = None"
        using None i(3) by (cases j) auto
    qed
    with i(1,2) show ?thesis by (intro exI [of _ "Suc i"]) simp
  next
    case (Some a)
    with Cons.prems show ?thesis by (intro exI [of _ 0]) simp
  qed
qed

text \<open>
  C7.  \<open>decomposeLBName\<close> against the pattern
  \<^verbatim>\<open>prefix + servicePrefix + "(clusterName)_(namespace)_(name)"\<close>: when the pattern
  matches somewhere in the raw string, the result is a match, it starts leftmost, its
  cluster name is the longest one a match at that offset can have (greedy, so it may
  hold \<open>_\<close>), and for that cluster name the namespace is the only possible one (a single
  segment without \<open>_\<close>) and the name the longest possible segment.  When nothing matches,
  the result is the three empty strings; the function has no error result.
\<close>

theorem decomposeLBName_leftmost_greedy:
  "if \<exists>i g. pattern_match sp rp raw i g
   then \<exists>i. pattern_match sp rp raw i (decomposeLBName sp rp raw)
          \<and> (\<forall>j g. pattern_match sp rp raw j g \<longrightarrow> i \<le> j)
          \<and> (\<forall>c n m. pattern_match sp rp raw i (c, n, m) \<longrightarrow>
                length c \<le> length (fst (decomposeLBName sp rp raw)))
          \<and> (\<forall>n m. pattern_match sp rp raw i (fst (decomposeLBName sp rp raw), n, m) \<longrightarrow>
                n = fst (snd (decomposeLBName sp rp raw))
                \<and> length m \<le> length (snd (snd (decomposeLBName sp rp raw))))
   else decomposeLBName sp rp raw = ([], [], [])"
proof (cases "first_submatch sp rp raw")
  case None
  have "\<not> pattern_match sp rp raw i g" for i g
  proof (cases g)
    case (fields c n m)
    show ?thesis
    proof (cases "i \<le> length raw")
      case True
      then have "match_here sp rp (drop i raw) = None"
        using None first_submatch_None by blast
      then show ?thesis
        using match_here_None fields pattern_match_drop by blast
    next
      case False
      then show ?thesis using pattern_match_drop by blast
    qed
  qed
  then show ?thesis using None by (simp add: decomposeLBName_def)
next
  case (Some g)
  obtain c n m where g: "g = (c, n, m)" by (cases g)
  from Some obtain i where i: "i \<le> length raw" "match_here sp rp (drop i raw) = Some (c, n, m)"
    and least: "\<And>j. j < i \<Longrightarrow> match_here sp rp (drop j raw) = None"
    using first_submatch_Some g by blast
  have d: "decomposeLBName sp rp raw = (c, n, m)"
    using Some g by (simp add: decomposeLBName_def)
  have here: "pattern_match sp rp raw i (c, n, m)"
    using match_here_Some(1) [OF i(2)] i(1) pattern_match_drop by blast
  have leftmost: "i \<le> j" if "pattern_match sp rp raw j h" for j h
  proof (rule ccontr)
    assume "\<not> i \<le> j"
    then have "match_here sp rp (drop j raw) = None" using least by simp
    moreover obtain c' n' m' where "h = (c', n', m')" by (cases h)
    ultimately show False
      using that match_here_None pattern_match_drop by blast
  qed
  have greedy: "length c' \<le> length c" if "pattern_match sp rp raw i (c', n', m')" for c' n' m'
    using that match_here_Some(2) [OF i(2)] pattern_match_drop by blast
  have segments: "n' = n \<and> length m' \<le> length m" if "pattern_match sp rp raw i (c, n', m')" for n' m'
    using that match_here_Some(3) [OF i(2)] pattern_match_drop by blast
  have "\<exists>i g. pattern_match sp rp raw i g" using here by blast
  moreover have "\<exists>i. pattern_match sp rp raw i (c, n, m)
          \<and> (\<forall>j g. pattern_match sp rp raw j g \<longrightarrow> i \<le> j)
          \<and> (\<forall>c' n' m'. pattern_match sp rp raw i (c', n', m') \<longrightarrow> length c' \<le> length c)
          \<and> (\<forall>n' m'. pattern_match sp rp raw i (c, n', m') \<longrightarrow> n' = n \<and> length m' \<le> length m)"
    using here leftmost greedy segments by blast
  ultimately show ?thesis unfolding d by simp
qed

theorem decomposeLBName_leftmost_greedy_witness:
  "decomposeLBName ''kube_service_'' (Numbered ''listener_'') ''listener_12_kube_service_a_b_ns1_svc1''
     = (''a_b'', ''ns1'', ''svc1'')
   \<and> (\<exists>i. pattern_match ''kube_service_'' (Numbered ''listener_'')
          ''listener_12_kube_service_a_b_ns1_svc1'' i (''a_b'', ''ns1'', ''svc1''))"
proof -
  let ?raw = "''listener_12_kube_service_a_b_ns1_svc1''"
  have e: "decomposeLBName ''kube_service_'' (Numbered ''listener_'') ?raw = (''a_b'', ''ns1'', ''svc1'')"
    by code_simp
  have w: "resource_prefix_text (Numbered ''listener_'') (''listener_'' @ ''12'' @ ''_'')"
    unfolding resource_prefix_text_def by (simp add: is_digit_def)
  have "pattern_match ''kube_service_'' (Numbered ''listener_'') ?raw 0 (''a'', ''b'', ''ns1'')"
    unfolding pattern_match_def prod.case
    apply (rule exI [of _ "[]"])
    apply (rule exI [of _ "''listener_'' @ ''12'' @ ''_''"])
    apply (rule exI [of _ "''_svc1''"])
    apply (insert w)
    apply simp
    done
  then have ex: "\<exists>i g. pattern_match ''kube_service_'' (Numbered ''listener_'') ?raw i g" by blast
  from decomposeLBName_leftmost_greedy [of "''kube_service_''" "Numbered ''listener_''" ?raw]
  have "\<exists>i. pattern_match ''kube_service_'' (Numbered ''listener_'') ?raw i
          (decomposeLBName ''kube_service_'' (Numbered ''listener_'') ?raw)"
    unfolding if_P [OF ex] by blast
  then show ?thesis unfolding e by simp
qed

subsection \<open>The log of a cascade\<close>

lemma outcome_simps [simp]: "outcome (Inl e) = Some e" "outcome (Inr x) = None"
  by (simp_all add: outcome_def)

lemma request_calls:
  assumes "request c serve st = (r, st')"
    and "\<And>s x s'. serve s = Inr (x, s') \<Longrightarrow> calls s' = calls s"
  shows "calls st' = calls st @ [(c, outcome r)]"
  using assms
  by (auto simp: request_def Let_def split: list.splits option.splits sum.splits prod.splits)

lemma GetListeners_calls:
  "GetListenersByLoadBalancerID lbID st = (r, st') \<Longrightarrow> calls st' = calls st @ [(ListListeners lbID, outcome r)]"
  unfolding GetListenersByLoadBalancerID_def by (erule request_calls) auto

lemma GetPool_calls:
  "GetPoolByListener lbID lid st = (r, st') \<Longrightarrow> calls st' = calls st @ [(GetPool lbID lid, outcome r)]"
  unfolding GetPoolByListener_def by (erule request_calls) (auto split: list.splits)

lemma GetMonitor_calls:
  "GetHealthMonitor mid st = (r, st') \<Longrightarrow> calls st' = calls st @ [(GetMonitor mid, outcome r)]"
  unfolding GetHealthMonitor_def by (erule request_calls) (auto split: option.splits)

lemma PutMonitor_calls:
  "UpdateHealthMonitor mid name lbID st = (r, st') \<Longrightarrow> calls st' = calls st @ [(PutMonitor mid name lbID, outcome r)]"
  unfolding UpdateHealthMonitor_def by (erule request_calls) (auto split: if_splits)

lemma PutPool_calls:
  "UpdatePool lbID pid name st = (r, st') \<Longrightarrow> calls st' = calls st @ [(PutPool lbID pid name, outcome r)]"
  unfolding UpdatePool_def by (erule request_calls) (auto split: if_splits)

lemma PutListener_calls:
  "UpdateListener lbID lid name tags st = (r, st') \<Longrightarrow> calls st' = calls st @ [(PutListener lbID lid name tags, outcome r)]"
  unfolding UpdateListener_def by (erule request_calls) (auto split: if_splits)

lemma PutLoadBalancer_calls:
  "UpdateLoadBalancer lbID name tags st = (r, st') \<Longrightarrow> calls st' = calls st @ [(PutLoadBalancer lbID name tags, outcome r)]"
  unfolding UpdateLoadBalancer_def by (erule request_calls) (auto split: option.splits)

lemmas accessor_calls = GetListeners_calls GetPool_calls GetMonitor_calls PutMonitor_calls
  PutPool_calls PutListener_calls PutLoadBalancer_calls

lemma stops_single: "stops_at_failure [(c, outcome r)] r"
  by (cases r) (simp_all add: stops_at_failure_def served_def)

lemma stops_nothing: "stops_at_failure [] (Inr x)"
  by (simp add: stops_at_failure_def served_def)

lemma stops_append:
  "stops_at_failure new1 (Inr x) \<Longrightarrow> stops_at_failure new2 r \<Longrightarrow> stops_at_failure (new1 @ new2) r"
  by (cases r) (auto simp: stops_at_failure_def served_def butlast_append)

lemma stops_retype: "stops_at_failure new (Inl e :: error + 'a) \<Longrightarrow> stops_at_failure new (Inl e :: error + 'b)"
  by (simp add: stops_at_failure_def)

lemma run_log_refl: "run_log st (Inr x) st"
  by (simp add: run_log_def stops_nothing)

lemma run_log_single: "calls st' = calls st @ [(c, outcome r)] \<Longrightarrow> run_log st r st'"
  by (auto simp: run_log_def stops_single)

lemma run_log_seq: "run_log st (Inr x) st1 \<Longrightarrow> run_log st1 r st' \<Longrightarrow> run_log st r st'"
  by (auto simp: run_log_def intro: stops_append)

lemma run_log_fail: "run_log st (Inl e :: error + 'a) st' \<Longrightarrow> run_log st (Inl e :: error + 'b) st'"
  by (auto simp: run_log_def intro: stops_retype)

lemma monitor_run_log:
  "renameLoadBalancer_monitor px lb cn p st = (r, st') \<Longrightarrow> run_log st r st'"
  unfolding renameLoadBalancer_monitor_def
  by (auto simp: Let_def split: if_splits prod.splits sum.splits
      intro: run_log_refl run_log_single run_log_seq run_log_fail dest!: accessor_calls)

lemma accessor_run_log:
  "GetListenersByLoadBalancerID lbID st = (r1, st') \<Longrightarrow> run_log st r1 st'"
  "GetPoolByListener lbID lid st = (r2, st') \<Longrightarrow> run_log st r2 st'"
  "GetHealthMonitor mid st = (r3, st') \<Longrightarrow> run_log st r3 st'"
  "UpdateHealthMonitor mid name lbID st = (r4, st') \<Longrightarrow> run_log st r4 st'"
  "UpdatePool lbID pid name st = (r4, st') \<Longrightarrow> run_log st r4 st'"
  "UpdateListener lbID lid name tags st = (r4, st') \<Longrightarrow> run_log st r4 st'"
  "UpdateLoadBalancer lbID name tags st = (r5, st') \<Longrightarrow> run_log st r5 st'"
  by (blast intro: run_log_single dest: accessor_calls)+

lemma pool_run_log:
  "renameLoadBalancer_pool px lb cn old p st = (r, st') \<Longrightarrow> run_log st r st'"
  unfolding renameLoadBalancer_pool_def
  apply (clarsimp split: prod.splits sum.splits)
   apply (blast intro: run_log_seq run_log_fail dest: monitor_run_log accessor_run_log)+
  done

lemma listener_run_log:
  "renameLoadBalancer_listener px lb cn l st = (r, st') \<Longrightarrow> run_log st r st'"
  unfolding renameLoadBalancer_listener_def
  apply (clarsimp simp: Let_def run_log_refl split: if_splits prod.splits sum.splits)
   apply (blast intro: run_log_seq run_log_fail run_log_refl dest: pool_run_log accessor_run_log)+
  done

lemma listeners_run_log:
  "renameLoadBalancer_listeners px lb cn ls st = (r, st') \<Longrightarrow> run_log st r st'"
proof (induction ls arbitrary: st)
  case Nil
  then show ?case by (auto intro: run_log_refl)
next
  case (Cons l ls)
  then show ?case
    apply (clarsimp split: prod.splits sum.splits)
     apply (blast intro: run_log_seq run_log_fail dest: listener_run_log)+
    done
qed

text \<open>
  C8.  Whatever the service answers, the requests of one \<open>renameLoadBalancer\<close> run are
  appended to the log, and a request that fails is the last one of the run: every
  request before it was served, nothing is sent after it (no further request, no
  rollback), and the run returns exactly the error that request failed with.  A run that
  returns a load balancer has had every request served.
\<close>

theorem renameLoadBalancer_stops_at_first_failure:
  "run_log st (fst (renameLoadBalancer px lb lbName cn st)) (snd (renameLoadBalancer px lb lbName cn st))"
proof -
  obtain r st' where e: "renameLoadBalancer px lb lbName cn st = (r, st')"
    by (cases "renameLoadBalancer px lb lbName cn st")
  then have "run_log st r st'"
    unfolding renameLoadBalancer_def
    apply (clarsimp split: prod.splits sum.splits)
      apply (blast intro: run_log_seq run_log_fail dest: listeners_run_log accessor_run_log)+
    done
  with e show ?thesis by simp
qed

theorem renameLoadBalancer_stops_at_first_failure_witness:
  "run_log (cloudA\<lparr>pending := [None, None, None, Some (ErrRequest ''timeout'')]\<rparr>)
     (Inl (ErrRequest ''timeout'') :: error + loadbalancer)
     (snd (renameLoadBalancer px0 lbA ''kube_service_B_ns_svc'' ''B''
            (cloudA\<lparr>pending := [None, None, None, Some (ErrRequest ''timeout'')]\<rparr>)))
   \<and> calls (snd (renameLoadBalancer px0 lbA ''kube_service_B_ns_svc'' ''B''
            (cloudA\<lparr>pending := [None, None, None, Some (ErrRequest ''timeout'')]\<rparr>)))
     = [(ListListeners ''lb1'', None), (GetPool ''lb1'' ''l1'', None), (GetMonitor ''m1'', None),
        (PutMonitor ''m1'' ''monitor_0_kube_service_B_ns_svc'' ''lb1'', Some (ErrRequest ''timeout''))]"
proof -
  let ?st = "cloudA\<lparr>pending := [None, None, None, Some (ErrRequest ''timeout'')]\<rparr>"
  have r: "fst (renameLoadBalancer px0 lbA ''kube_service_B_ns_svc'' ''B'' ?st) = Inl (ErrRequest ''timeout'')"
    by code_simp
  have c: "calls (snd (renameLoadBalancer px0 lbA ''kube_service_B_ns_svc'' ''B'' ?st))
     = [(ListListeners ''lb1'', None), (GetPool ''lb1'' ''l1'', None), (GetMonitor ''m1'', None),
        (PutMonitor ''m1'' ''monitor_0_kube_service_B_ns_svc'' ''lb1'', Some (ErrRequest ''timeout''))]"
    by code_simp
  from renameLoadBalancer_stops_at_first_failure [of ?st px0 lbA "''kube_service_B_ns_svc''" "''B''"]
  show ?thesis unfolding r using c by simp
qed

subsection \<open>What the requests do to the service\<close>

lemma request_Inl:
  "request c serve st = (Inl e, st') \<Longrightarrow>
     st' = st\<lparr>pending := tl (pending st), calls := calls st @ [(c, Some e)]\<rparr>"
  by (auto simp: request_def Let_def split: list.splits option.splits sum.splits prod.splits)

lemma request_Inr:
  "request c serve st = (Inr x, st') \<Longrightarrow>
     \<exists>s2. serve (st\<lparr>pending := tl (pending st)\<rparr>) = Inr (x, s2) \<and> st' = s2\<lparr>calls := calls s2 @ [(c, None)]\<rparr>"
  by (auto simp: request_def Let_def split: list.splits option.splits sum.splits prod.splits)

lemma GetListeners_Inr:
  "GetListenersByLoadBalancerID lbID st = (Inr ls, st') \<Longrightarrow>
     ls = filter (\<lambda>l. l_lb l = lbID) (listeners st)
     \<and> st' = st\<lparr>pending := tl (pending st), calls := calls st @ [(ListListeners lbID, None)]\<rparr>"
  unfolding GetListenersByLoadBalancerID_def by (drule request_Inr) auto

lemma GetPool_Inr:
  "GetPoolByListener lbID lid st = (Inr p, st') \<Longrightarrow>
     filter (\<lambda>p. p_lb p = lbID \<and> p_listener p = lid) (pools st) = [p]
     \<and> st' = st\<lparr>pending := tl (pending st), calls := calls st @ [(GetPool lbID lid, None)]\<rparr>"
  unfolding GetPoolByListener_def by (drule request_Inr) (auto split: list.splits)

lemma GetMonitor_Inr:
  "GetHealthMonitor mid st = (Inr m, st') \<Longrightarrow>
     find (\<lambda>m. m_ID m = mid) (monitors st) = Some m
     \<and> st' = st\<lparr>pending := tl (pending st), calls := calls st @ [(GetMonitor mid, None)]\<rparr>"
  unfolding GetHealthMonitor_def by (drule request_Inr) (auto split: option.splits)

lemma PutMonitor_Inr:
  "UpdateHealthMonitor mid name lbID st = (Inr u, st') \<Longrightarrow>
     st' = st\<lparr>pending := tl (pending st),
              monitors := map (\<lambda>m. if m_ID m = mid then m\<lparr>m_Name := name\<rparr> else m) (monitors st),
              calls := calls st @ [(PutMonitor mid name lbID, None)]\<rparr>"
  unfolding UpdateHealthMonitor_def by (drule request_Inr) (auto split: if_splits)

lemma PutPool_Inr:
  "UpdatePool lbID pid name st = (Inr u, st') \<Longrightarrow>
     st' = st\<lparr>pending := tl (pending st),
              pools := map (\<lambda>p. if p_ID p = pid then p\<lparr>p_Name := name\<rparr> else p) (pools st),
              calls := calls st @ [(PutPool lbID pid name, None)]\<rparr>"
  unfolding UpdatePool_def by (drule request_Inr) (auto split: if_splits)

lemma PutListener_Inr:
  "UpdateListener lbID lid name tags st = (Inr u, st') \<Longrightarrow>
     st' = st\<lparr>pending := tl (pending st),
              listeners := map (\<lambda>l. if l_ID l = lid then l\<lparr>l_Name := name, l_Tags := tags\<rparr> else l) (listeners st),
              calls := calls st @ [(PutListener lbID lid name tags, None)]\<rparr>"
  unfolding UpdateListener_def by (drule request_Inr) (auto split: if_splits)

lemma PutLoadBalancer_Inr:
  "UpdateLoadBalancer lbID name tags st = (Inr b, st') \<Longrightarrow>
     lb_ID b = lbID \<and> lb_Name b = name \<and> lb_Tags b = tags
     \<and> st' = st\<lparr>pending := tl (pending st),
              loadbalancers := map (\<lambda>b. if lb_ID b = lbID then b\<lparr>lb_Name := name, lb_Tags := tags\<rparr> else b) (loadbalancers st),
              calls := calls st @ [(PutLoadBalancer lbID name tags, None)]\<rparr>"
  unfolding UpdateLoadBalancer_def by (drule request_Inr) (auto split: option.splits dest: find_Some_iff [THEN iffD1])

lemma accessor_Inl:
  "GetListenersByLoadBalancerID lbID st = (Inl e, st') \<Longrightarrow>
     st' = st\<lparr>pending := tl (pending st), calls := calls st @ [(ListListeners lbID, Some e)]\<rparr>"
  "GetPoolByListener lbID lid st = (Inl e, st') \<Longrightarrow>
     st' = st\<lparr>pending := tl (pending st), calls := calls st @ [(GetPool lbID lid, Some e)]\<rparr>"
  "GetHealthMonitor mid st = (Inl e, st') \<Longrightarrow>
     st' = st\<lparr>pending := tl (pending st), calls := calls st @ [(GetMonitor mid, Some e)]\<rparr>"
  "UpdateHealthMonitor mid name lbID st = (Inl e, st') \<Longrightarrow>
     st' = st\<lparr>pending := tl (pending st), calls := calls st @ [(PutMonitor mid name lbID, Some e)]\<rparr>"
  "UpdatePool lbID pid name st = (Inl e, st') \<Longrightarrow>
     st' = st\<lparr>pending := tl (pending st), calls := calls st @ [(PutPool lbID pid name, Some e)]\<rparr>"
  "UpdateListener lbID lid name tags st = (Inl e, st') \<Longrightarrow>
     st' = st\<lparr>pending := tl (pending st), calls := calls st @ [(PutListener lbID lid name tags, Some e)]\<rparr>"
  "UpdateLoadBalancer lbID name tags st = (Inl e, st') \<Longrightarrow>
     st' = st\<lparr>pending := tl (pending st), calls := calls st @ [(PutLoadBalancer lbID name tags, Some e)]\<rparr>"
  unfolding GetListenersByLoadBalancerID_def GetPoolByListener_def GetHealthMonitor_def
    UpdateHealthMonitor_def UpdatePool_def UpdateListener_def UpdateLoadBalancer_def
  by (erule request_Inl)+


subsection \<open>A load balancer that is not ours\<close>

text \<open>
  C4.  A load balancer whose name does not begin with the service prefix is returned
  as it is, without error, and no request is sent (so no update): the service is in the
  state it was in.
\<close>

theorem migrate_skips_foreign_load_balancer:
  assumes "\<not> prefix (servicePrefix px) (lb_Name lb)"
  shows "migrate px lb lbName cn st = (Inr lb, st) \<and> issued st (snd (migrate px lb lbName cn st)) = []"
  using assms by (simp add: migrate_def lbHasOldClusterName_def issued_def)

theorem migrate_skips_foreign_load_balancer_witness:
  "migrate px0 \<lparr>lb_ID = ''lb9'', lb_Name = ''web-frontend'', lb_Tags = [''team:payments'']\<rparr>
     ''kube_service_B_ns_svc'' ''B'' cloudA
   = (Inr \<lparr>lb_ID = ''lb9'', lb_Name = ''web-frontend'', lb_Tags = [''team:payments'']\<rparr>, cloudA)"
proof -
  have "\<not> prefix (servicePrefix px0)
          (lb_Name \<lparr>lb_ID = ''lb9'', lb_Name = ''web-frontend'', lb_Tags = [''team:payments'']\<rparr>)"
    by code_simp
  from migrate_skips_foreign_load_balancer [OF this] show ?thesis by blast
qed

subsection \<open>The new name of a listener\<close>

lemma request_frame:
  assumes "request c serve st = (r, st')"
    and "\<And>s x s'. serve s = Inr (x, s') \<Longrightarrow> f s' = f s"
    and "\<And>s g. f (s\<lparr>calls := g\<rparr>) = f s" "\<And>s g. f (s\<lparr>pending := g\<rparr>) = f s"
  shows "f st' = f st"
  using assms(1)
  by (auto simp: request_def Let_def assms(3,4) dest!: assms(2)
      split: list.splits option.splits sum.splits prod.splits)





subsection \<open>The health monitor\<close>




subsection \<open>Which requests a run sends\<close>

lemma log_all_refl: "log_all P st st"
  by (simp add: log_all_def)

lemma log_all_single: "calls st' = calls st @ [(c, out)] \<Longrightarrow> P c \<Longrightarrow> log_all P st st'"
  by (simp add: log_all_def)

lemma log_all_seq: "log_all P st st1 \<Longrightarrow> log_all P st1 st' \<Longrightarrow> log_all P st st'"
  by (auto simp: log_all_def)

lemma log_all_mono: "log_all P st st' \<Longrightarrow> (\<And>c. P c \<Longrightarrow> Q c) \<Longrightarrow> log_all Q st st'"
  by (auto simp: log_all_def list_all_iff)

lemma log_all_issued: "log_all P st st' \<Longrightarrow> list_all (\<lambda>x. P (fst x)) (issued st st')"
  by (auto simp: log_all_def issued_def)

lemma accessor_links:
  "GetListenersByLoadBalancerID lbID st = (r1, st') \<Longrightarrow> links st' = links st"
  "GetPoolByListener lbID lid st = (r2, st') \<Longrightarrow> links st' = links st"
  "GetHealthMonitor mid st = (r3, st') \<Longrightarrow> links st' = links st"
  "UpdateHealthMonitor mid name lbID st = (r4, st') \<Longrightarrow> links st' = links st"
  "UpdatePool lbID pid name st = (r4, st') \<Longrightarrow> links st' = links st"
  "UpdateListener lbID lid name tags st = (r4, st') \<Longrightarrow> links st' = links st"
  "UpdateLoadBalancer lbID name tags st = (r5, st') \<Longrightarrow> links st' = links st"
  unfolding GetListenersByLoadBalancerID_def GetPoolByListener_def GetHealthMonitor_def
    UpdateHealthMonitor_def UpdatePool_def UpdateListener_def UpdateLoadBalancer_def
  by (erule request_frame; auto simp: links_def split: list.splits option.splits if_splits)+

lemma monitor_block_links:
  "renameLoadBalancer_monitor px lb cn p st = (r, st') \<Longrightarrow> links st' = links st"
  unfolding renameLoadBalancer_monitor_def
  by (auto simp: Let_def split: if_splits prod.splits sum.splits dest!: accessor_links)

lemma pool_block_links:
  "renameLoadBalancer_pool px lb cn old p st = (r, st') \<Longrightarrow> links st' = links st"
  unfolding renameLoadBalancer_pool_def
  by (auto split: prod.splits sum.splits dest!: accessor_links monitor_block_links)

lemma listener_links:
  "renameLoadBalancer_listener px lb cn l st = (r, st') \<Longrightarrow> links st' = links st"
  unfolding renameLoadBalancer_listener_def
  by (auto simp: Let_def split: if_splits prod.splits sum.splits dest!: accessor_links pool_block_links)

lemma listeners_links:
  "renameLoadBalancer_listeners px lb cn ls st = (r, st') \<Longrightarrow> links st' = links st"
  by (induction ls arbitrary: st) (auto split: prod.splits sum.splits dest!: listener_links)

lemma GetPool_linked:
  "GetPoolByListener lbID lid st = (Inr p, st') \<Longrightarrow> (p_ID p, p_MonitorID p, lbID, lid) \<in> set (links st)"
proof -
  assume "GetPoolByListener lbID lid st = (Inr p, st')"
  then have "filter (\<lambda>p. p_lb p = lbID \<and> p_listener p = lid) (pools st) = [p]"
    by (simp add: GetPool_Inr)
  then have "p \<in> set (filter (\<lambda>p. p_lb p = lbID \<and> p_listener p = lid) (pools st))" by simp
  then show ?thesis by (auto simp: links_def image_iff)
qed

lemma GetMonitor_id: "GetHealthMonitor mid st = (Inr m, st') \<Longrightarrow> m_ID m = mid"
  by (auto dest!: GetMonitor_Inr simp: find_Some_iff)

lemma monitor_block_calls:
  assumes "renameLoadBalancer_monitor px lb cn p st = (r, st')"
  shows "log_all (\<lambda>c. p_MonitorID p \<noteq> [] \<and> (c = GetMonitor (p_MonitorID p)
            \<or> (\<exists>name. c = PutMonitor (p_MonitorID p) name (lb_ID lb)))) st st'"
proof (cases "p_MonitorID p = []")
  case True
  with assms show ?thesis
    by (simp add: renameLoadBalancer_monitor_def log_all_refl)
next
  case False
  let ?P = "\<lambda>c. p_MonitorID p \<noteq> [] \<and> (c = GetMonitor (p_MonitorID p)
            \<or> (\<exists>name. c = PutMonitor (p_MonitorID p) name (lb_ID lb)))"
  obtain rm st1 where g: "GetHealthMonitor (p_MonitorID p) st = (rm, st1)"
    by (cases "GetHealthMonitor (p_MonitorID p) st")
  have g1: "log_all ?P st st1"
    using GetMonitor_calls [OF g] False by (auto intro!: log_all_single)
  show ?thesis
  proof (cases rm)
    case (Inl e)
    with assms False g have "st' = st1"
      by (simp add: renameLoadBalancer_monitor_def)
    with g1 show ?thesis by simp
  next
    case (Inr m)
    then have mid: "m_ID m = p_MonitorID p" using g GetMonitor_id by blast
    let ?old = "fst (decomposeLBName (servicePrefix px) (Numbered (monitorPrefix px)) (m_Name m))"
    show ?thesis
    proof (cases "?old = cn")
      case True
      with assms False g Inr have "st' = st1"
        by (simp add: renameLoadBalancer_monitor_def)
      with g1 show ?thesis by simp
    next
      case stale: False
      with assms \<open>p_MonitorID p \<noteq> []\<close> g Inr mid
      have "UpdateHealthMonitor (p_MonitorID p) (replaceClusterName ?old cn (m_Name m)) (lb_ID lb) st1 = (r, st')"
        by (simp add: renameLoadBalancer_monitor_def Let_def)
      then have "log_all ?P st1 st'"
        using \<open>p_MonitorID p \<noteq> []\<close> by (auto dest!: PutMonitor_calls intro!: log_all_single)
      with g1 show ?thesis by (rule log_all_seq)
    qed
  qed
qed

lemma pool_block_calls:
  assumes "renameLoadBalancer_pool px lb cn old p st = (r, st')"
  shows "log_all (\<lambda>c. (p_MonitorID p \<noteq> [] \<and> (c = GetMonitor (p_MonitorID p)
            \<or> (\<exists>name. c = PutMonitor (p_MonitorID p) name (lb_ID lb))))
            \<or> (\<exists>name. c = PutPool (lb_ID lb) (p_ID p) name)) st st'"
  using assms unfolding renameLoadBalancer_pool_def
  apply (clarsimp split: prod.splits sum.splits)
   apply (drule monitor_block_calls, erule log_all_mono, blast)
  apply (rule log_all_seq)
   apply (drule monitor_block_calls, erule log_all_mono, blast)
  apply (drule PutPool_calls, erule log_all_single, blast)
  done

lemma listener_calls:
  assumes "renameLoadBalancer_listener px lb cn l st = (r, st')"
  shows "log_all (body_call px lb cn (links st) l) st st'"
proof (cases "prefix (listenerPrefix px) (l_Name l)
    \<and> fst (decomposeLBName (servicePrefix px) (Numbered (listenerPrefix px)) (l_Name l)) \<noteq> cn")
  case False
  have "st' = st"
  proof (cases "prefix (listenerPrefix px) (l_Name l)")
    case True
    with False assms show ?thesis
      by (simp add: renameLoadBalancer_listener_def Let_def)
  next
    case False
    with assms show ?thesis
      by (simp add: renameLoadBalancer_listener_def)
  qed
  then show ?thesis by (simp add: log_all_refl)
next
  case True
  let ?P = "body_call px lb cn (links st) l"
  obtain rp st1 where g: "GetPoolByListener (lb_ID lb) (l_ID l) st = (rp, st1)"
    by (cases "GetPoolByListener (lb_ID lb) (l_ID l) st")
  have g1: "log_all ?P st st1"
    using GetPool_calls [OF g] True by (auto intro!: log_all_single simp: body_call_def)
  show ?thesis
  proof (cases rp)
    case (Inl e)
    with assms True g have "st' = st1"
      unfolding renameLoadBalancer_listener_def by (auto simp: Let_def)
    with g1 show ?thesis by simp
  next
    case (Inr p)
    let ?old = "fst (decomposeLBName (servicePrefix px) (Numbered (poolPrefix px)) (p_Name p))"
    have lk: "(p_ID p, p_MonitorID p, lb_ID lb, l_ID l) \<in> set (links st)"
      using g Inr GetPool_linked by blast
    obtain rb st2 where b: "(if ?old \<noteq> cn then renameLoadBalancer_pool px lb cn ?old p st1
                              else (Inr (), st1)) = (rb, st2)"
      by (cases "if ?old \<noteq> cn then renameLoadBalancer_pool px lb cn ?old p st1 else (Inr (), st1)")
    have g2: "log_all ?P st1 st2"
    proof (cases "?old \<noteq> cn")
      case False
      with b show ?thesis by (simp add: log_all_refl)
    next
      case stale: True
      with b have "renameLoadBalancer_pool px lb cn ?old p st1 = (rb, st2)" by simp
      from pool_block_calls [OF this] show ?thesis
        by (rule log_all_mono) (use lk True in \<open>auto simp: body_call_def\<close>)
    qed
    show ?thesis
    proof (cases rb)
      case (Inl e)
      with assms True g Inr b have "st' = st2"
        unfolding renameLoadBalancer_listener_def by (auto simp: Let_def)
      with g1 g2 show ?thesis by (auto intro: log_all_seq)
    next
      case (Inr u)
      with assms True g \<open>rp = Inr p\<close> b
      have "UpdateListener (lb_ID lb) (l_ID l) (replaceClusterName ?old cn (l_Name l))
              (map (renameTag px cn) (l_Tags l)) st2 = (r, st')"
        unfolding renameLoadBalancer_listener_def by (auto simp: Let_def)
      then have "log_all ?P st2 st'"
        using True by (auto dest!: PutListener_calls intro!: log_all_single simp: body_call_def)
      with g1 g2 show ?thesis by (blast intro: log_all_seq)
    qed
  qed
qed

lemma listeners_calls:
  "renameLoadBalancer_listeners px lb cn ls st = (r, st') \<Longrightarrow>
     log_all (\<lambda>c. \<exists>l\<in>set ls. body_call px lb cn (links st) l c) st st'"
proof (induction ls arbitrary: st)
  case Nil
  then show ?case by (simp add: log_all_refl)
next
  case (Cons l ls)
  obtain r1 st1 where b: "renameLoadBalancer_listener px lb cn l st = (r1, st1)"
    by (cases "renameLoadBalancer_listener px lb cn l st")
  have h: "log_all (\<lambda>c. \<exists>k\<in>set (l # ls). body_call px lb cn (links st) k c) st st1"
    using listener_calls [OF b] by (rule log_all_mono) simp
  show ?case
  proof (cases r1)
    case (Inl e)
    with Cons.prems b have "st' = st1" by simp
    with h show ?thesis by simp
  next
    case (Inr u)
    with Cons.prems b have "renameLoadBalancer_listeners px lb cn ls st1 = (r, st')" by simp
    from Cons.IH [OF this] have "log_all (\<lambda>c. \<exists>k\<in>set (l # ls). body_call px lb cn (links st) k c) st1 st'"
      unfolding listener_links [OF b] by (rule log_all_mono) simp
    with h show ?thesis by (rule log_all_seq)
  qed
qed

lemma run_calls:
  assumes "renameLoadBalancer px lb lbName cn st = (r, st')"
  shows "log_all (run_call px lb cn (links st) (filter (\<lambda>l. l_lb l = lb_ID lb) (listeners st))) st st'"
proof -
  let ?P = "run_call px lb cn (links st) (filter (\<lambda>l. l_lb l = lb_ID lb) (listeners st))"
  obtain r1 st1 where g: "GetListenersByLoadBalancerID (lb_ID lb) st = (r1, st1)"
    by (cases "GetListenersByLoadBalancerID (lb_ID lb) st")
  have g1: "log_all ?P st st1"
    using GetListeners_calls [OF g] by (auto intro!: log_all_single simp: run_call_def)
  show ?thesis
  proof (cases r1)
    case (Inl e)
    with assms g have "st' = st1" unfolding renameLoadBalancer_def by simp
    with g1 show ?thesis by simp
  next
    case (Inr ls)
    then have ls: "ls = filter (\<lambda>l. l_lb l = lb_ID lb) (listeners st)"
      using g GetListeners_Inr by blast
    obtain r2 st2 where b: "renameLoadBalancer_listeners px lb cn ls st1 = (r2, st2)"
      by (cases "renameLoadBalancer_listeners px lb cn ls st1")
    have "log_all (\<lambda>c. \<exists>l\<in>set ls. body_call px lb cn (links st) l c) st1 st2"
      using listeners_calls [OF b] accessor_links(1) [OF g] by simp
    then have g2: "log_all ?P st1 st2"
      by (rule log_all_mono) (auto simp: run_call_def ls)
    show ?thesis
    proof (cases r2)
      case (Inl e)
      with assms g \<open>r1 = Inr ls\<close> b have "st' = st2" unfolding renameLoadBalancer_def by simp
      with g1 g2 show ?thesis by (auto intro: log_all_seq)
    next
      case (Inr u)
      with assms g \<open>r1 = Inr ls\<close> b
      have "UpdateLoadBalancer (lb_ID lb) lbName (map (renameTag px cn) (lb_Tags lb)) st2 = (r, st')"
        unfolding renameLoadBalancer_def by simp
      then have "log_all ?P st2 st'"
        by (auto dest!: PutLoadBalancer_calls intro!: log_all_single simp: run_call_def)
      with g1 g2 show ?thesis by (blast intro: log_all_seq)
    qed
  qed
qed










subsection \<open>The order of the updates\<close>

lemma phase_after_append:
  "phase_after lk ph (xs @ ys) =
     (case phase_after lk ph xs of None \<Rightarrow> None | Some ph' \<Rightarrow> phase_after lk ph' ys)"
  by (induction xs arbitrary: ph) (auto split: option.splits)

lemma moves_refl: "moves lk ph st st ph"
  by (simp add: moves_def)

lemma moves_seq: "moves lk ph st st1 ph1 \<Longrightarrow> moves lk ph1 st1 st' ph' \<Longrightarrow> moves lk ph st st' ph'"
  by (auto simp: moves_def phase_after_append)

lemma moves_single:
  "calls st' = calls st @ [(c, out)] \<Longrightarrow> update_step lk ph c = Some ph' \<Longrightarrow> moves lk ph st st' ph'"
  by (simp add: moves_def)

lemma monitor_block_moves:
  assumes "renameLoadBalancer_monitor px lb cn p st = (r, st')"
  shows "moves lk Idle st st' Idle \<or> moves lk Idle st st' (MonitorDone (p_MonitorID p))"
proof (cases "p_MonitorID p = []")
  case True
  with assms show ?thesis
    by (simp add: renameLoadBalancer_monitor_def moves_refl)
next
  case False
  obtain rm st1 where g: "GetHealthMonitor (p_MonitorID p) st = (rm, st1)"
    by (cases "GetHealthMonitor (p_MonitorID p) st")
  have g1: "moves lk Idle st st1 Idle"
    using GetMonitor_calls [OF g] by (rule moves_single) simp
  show ?thesis
  proof (cases rm)
    case (Inl e)
    with assms False g have "st' = st1"
      by (simp add: renameLoadBalancer_monitor_def)
    with g1 show ?thesis by simp
  next
    case (Inr m)
    then have mid: "m_ID m = p_MonitorID p" using g GetMonitor_id by blast
    let ?old = "fst (decomposeLBName (servicePrefix px) (Numbered (monitorPrefix px)) (m_Name m))"
    show ?thesis
    proof (cases "?old = cn")
      case True
      with assms False g Inr have "st' = st1"
        by (simp add: renameLoadBalancer_monitor_def)
      with g1 show ?thesis by simp
    next
      case stale: False
      with assms \<open>p_MonitorID p \<noteq> []\<close> g Inr mid
      have "UpdateHealthMonitor (p_MonitorID p) (replaceClusterName ?old cn (m_Name m)) (lb_ID lb) st1 = (r, st')"
        by (simp add: renameLoadBalancer_monitor_def Let_def)
      then have "moves lk Idle st1 st' (MonitorDone (p_MonitorID p))"
        by (auto dest!: PutMonitor_calls intro!: moves_single)
      with g1 show ?thesis by (blast intro: moves_seq)
    qed
  qed
qed

lemma pool_block_moves:
  assumes "renameLoadBalancer_pool px lb cn old p st = (r, st')"
    and "(p_ID p, p_MonitorID p, b, l) \<in> set lk"
  shows "(case r of Inl e \<Rightarrow> \<exists>ph. moves lk Idle st st' ph | Inr u \<Rightarrow> moves lk Idle st st' (PoolDone (p_ID p)))"
proof -
  obtain rm st1 where m: "renameLoadBalancer_monitor px lb cn p st = (rm, st1)"
    by (cases "renameLoadBalancer_monitor px lb cn p st")
  from monitor_block_moves [OF m]
  consider "moves lk Idle st st1 Idle" | "moves lk Idle st st1 (MonitorDone (p_MonitorID p))" by blast
  then show ?thesis
  proof cases
    case 1
    show ?thesis
    proof (cases rm)
      case (Inl e)
      with assms(1) m have "r = Inl e" "st' = st1"
        by (simp_all add: renameLoadBalancer_pool_def)
      with 1 show ?thesis by auto
    next
      case (Inr u)
      with assms(1) m
      have "UpdatePool (lb_ID lb) (p_ID p) (replaceClusterName old cn (p_Name p)) st1 = (r, st')"
        by (simp add: renameLoadBalancer_pool_def)
      then have "moves lk Idle st1 st' (PoolDone (p_ID p))"
        by (auto dest!: PutPool_calls intro!: moves_single)
      with 1 have "moves lk Idle st st' (PoolDone (p_ID p))" by (rule moves_seq)
      then show ?thesis by (cases r) auto
    qed
  next
    case 2
    show ?thesis
    proof (cases rm)
      case (Inl e)
      with assms(1) m have "r = Inl e" "st' = st1"
        by (simp_all add: renameLoadBalancer_pool_def)
      with 2 show ?thesis by auto
    next
      case (Inr u)
      with assms(1) m
      have "UpdatePool (lb_ID lb) (p_ID p) (replaceClusterName old cn (p_Name p)) st1 = (r, st')"
        by (simp add: renameLoadBalancer_pool_def)
      moreover have "list_ex (\<lambda>(i, m, b, l). i = p_ID p \<and> m = p_MonitorID p) lk"
        using assms(2) by (auto simp: list_ex_iff)
      ultimately have "moves lk (MonitorDone (p_MonitorID p)) st1 st' (PoolDone (p_ID p))"
        by (auto dest!: PutPool_calls intro!: moves_single)
      with 2 have "moves lk Idle st st' (PoolDone (p_ID p))" by (rule moves_seq)
      then show ?thesis by (cases r) auto
    qed
  qed
qed

lemma listener_moves:
  assumes "renameLoadBalancer_listener px lb cn l st = (r, st')"
  shows "(case r of Inl e \<Rightarrow> \<exists>ph. moves (links st) Idle st st' ph | Inr u \<Rightarrow> moves (links st) Idle st st' Idle)"
proof (cases "prefix (listenerPrefix px) (l_Name l)
    \<and> fst (decomposeLBName (servicePrefix px) (Numbered (listenerPrefix px)) (l_Name l)) \<noteq> cn")
  case False
  have "st' = st \<and> r = Inr ()"
  proof (cases "prefix (listenerPrefix px) (l_Name l)")
    case True
    with False assms show ?thesis
      by (simp add: renameLoadBalancer_listener_def Let_def)
  next
    case False
    with assms show ?thesis
      by (simp add: renameLoadBalancer_listener_def)
  qed
  then show ?thesis by (simp add: moves_refl)
next
  case True
  let ?lk = "links st"
  obtain rp st1 where g: "GetPoolByListener (lb_ID lb) (l_ID l) st = (rp, st1)"
    by (cases "GetPoolByListener (lb_ID lb) (l_ID l) st")
  have g1: "moves ?lk Idle st st1 Idle"
    using GetPool_calls [OF g] by (rule moves_single) simp
  show ?thesis
  proof (cases rp)
    case (Inl e)
    with assms True g have "st' = st1" "r = Inl e"
      unfolding renameLoadBalancer_listener_def by (auto simp: Let_def)
    with g1 show ?thesis by auto
  next
    case (Inr p)
    let ?old = "fst (decomposeLBName (servicePrefix px) (Numbered (poolPrefix px)) (p_Name p))"
    have lk: "(p_ID p, p_MonitorID p, lb_ID lb, l_ID l) \<in> set ?lk"
      using g Inr GetPool_linked by blast
    have upd: "UpdateListener (lb_ID lb) (l_ID l) (replaceClusterName ?old cn (l_Name l))
              (map (renameTag px cn) (l_Tags l)) st2 = (r, st') \<Longrightarrow> moves ?lk ph st1 st2 ph2 \<Longrightarrow>
           ph2 = Idle \<or> ph2 = PoolDone (p_ID p) \<Longrightarrow> moves ?lk ph st1 st' Idle" for st2 ph ph2
    proof -
      assume u: "UpdateListener (lb_ID lb) (l_ID l) (replaceClusterName ?old cn (l_Name l))
              (map (renameTag px cn) (l_Tags l)) st2 = (r, st')"
        and m: "moves ?lk ph st1 st2 ph2" and ph2: "ph2 = Idle \<or> ph2 = PoolDone (p_ID p)"
      have "list_ex (\<lambda>(i, m, b, k). i = p_ID p \<and> k = l_ID l) ?lk"
        using lk by (auto simp: list_ex_iff)
      with ph2 have "update_step ?lk ph2 (PutListener (lb_ID lb) (l_ID l) (replaceClusterName ?old cn (l_Name l))
              (map (renameTag px cn) (l_Tags l))) = Some Idle"
        by auto
      with PutListener_calls [OF u] have "moves ?lk ph2 st2 st' Idle"
        by (rule moves_single)
      with m show ?thesis by (rule moves_seq)
    qed
    show ?thesis
    proof (cases "?old = cn")
      case cur: True
      with assms True g Inr
      have "UpdateListener (lb_ID lb) (l_ID l) (replaceClusterName ?old cn (l_Name l))
              (map (renameTag px cn) (l_Tags l)) st1 = (r, st')"
        unfolding renameLoadBalancer_listener_def by (auto simp: Let_def)
      from upd [OF this moves_refl] have "moves ?lk Idle st1 st' Idle" by simp
      with g1 have "moves ?lk Idle st st' Idle" by (rule moves_seq)
      then show ?thesis by (cases r) auto
    next
      case stale: False
      obtain rb st2 where b: "renameLoadBalancer_pool px lb cn ?old p st1 = (rb, st2)"
        by (cases "renameLoadBalancer_pool px lb cn ?old p st1")
      note pm = pool_block_moves [OF b lk]
      show ?thesis
      proof (cases rb)
        case (Inl e)
        with assms True g Inr stale b have "st' = st2" "r = Inl e"
          unfolding renameLoadBalancer_listener_def by (auto simp: Let_def)
        moreover from pm Inl obtain ph where "moves ?lk Idle st1 st2 ph" by auto
        ultimately show ?thesis using g1 by (auto intro: moves_seq)
      next
        case (Inr u)
        with assms True g \<open>rp = Inr p\<close> stale b
        have "UpdateListener (lb_ID lb) (l_ID l) (replaceClusterName ?old cn (l_Name l))
              (map (renameTag px cn) (l_Tags l)) st2 = (r, st')"
          unfolding renameLoadBalancer_listener_def by (auto simp: Let_def)
        moreover from pm Inr have "moves ?lk Idle st1 st2 (PoolDone (p_ID p))" by simp
        ultimately have "moves ?lk Idle st1 st' Idle" using upd by blast
        with g1 have "moves ?lk Idle st st' Idle" by (rule moves_seq)
        then show ?thesis by (cases r) auto
      qed
    qed
  qed
qed

lemma listeners_moves:
  "renameLoadBalancer_listeners px lb cn ls st = (r, st') \<Longrightarrow>
     (case r of Inl e \<Rightarrow> \<exists>ph. moves (links st) Idle st st' ph | Inr u \<Rightarrow> moves (links st) Idle st st' Idle)"
proof (induction ls arbitrary: st)
  case Nil
  then show ?case by (auto simp: moves_refl)
next
  case (Cons l ls)
  obtain r1 st1 where b: "renameLoadBalancer_listener px lb cn l st = (r1, st1)"
    by (cases "renameLoadBalancer_listener px lb cn l st")
  note h = listener_moves [OF b]
  show ?case
  proof (cases r1)
    case (Inl e)
    with Cons.prems b have "st' = st1" "r = Inl e" by simp_all
    with h Inl show ?thesis by simp
  next
    case (Inr u)
    with Cons.prems b have "renameLoadBalancer_listeners px lb cn ls st1 = (r, st')" by simp
    from Cons.IH [OF this] have "case r of Inl e \<Rightarrow> \<exists>ph. moves (links st) Idle st1 st' ph
        | Inr u \<Rightarrow> moves (links st) Idle st1 st' Idle"
      unfolding listener_links [OF b] .
    moreover from h Inr have "moves (links st) Idle st st1 Idle" by simp
    ultimately show ?thesis by (cases r) (auto intro: moves_seq)
  qed
qed

text \<open>
  C2.  The requests of one \<open>renameLoadBalancer\<close> run keep the order of \<open>bottom_up\<close>,
  whatever the service holds and whichever requests fail: the update of a monitor is
  followed, as the next update, by the update of the pool that owns it; the update of a
  pool by the update of the listener it belongs to; the update of the load balancer
  stands between subtrees and no update follows it, so it is the only one and every
  listener update comes before it.  In a run that returns a load balancer the update of
  the load balancer has been sent, as the last update.
\<close>

theorem renameLoadBalancer_bottom_up:
  "bottom_up (links st) (map fst (issued st (snd (renameLoadBalancer px lb lbName cn st))))
   \<and> (case fst (renameLoadBalancer px lb lbName cn st) of
         Inl err \<Rightarrow> True
       | Inr b \<Rightarrow> phase_after (links st) Idle
                   (map fst (issued st (snd (renameLoadBalancer px lb lbName cn st)))) = Some Finished)"
proof -
  obtain r st' where e: "renameLoadBalancer px lb lbName cn st = (r, st')"
    by (cases "renameLoadBalancer px lb lbName cn st")
  let ?lk = "links st"
  have "case r of Inl err \<Rightarrow> \<exists>ph. moves ?lk Idle st st' ph | Inr b \<Rightarrow> moves ?lk Idle st st' Finished"
  proof -
    obtain r1 st1 where g: "GetListenersByLoadBalancerID (lb_ID lb) st = (r1, st1)"
      by (cases "GetListenersByLoadBalancerID (lb_ID lb) st")
    have g1: "moves ?lk Idle st st1 Idle"
      using GetListeners_calls [OF g] by (rule moves_single) simp
    show ?thesis
    proof (cases r1)
      case (Inl err)
      with e g have "st' = st1" "r = Inl err" unfolding renameLoadBalancer_def by simp_all
      with g1 show ?thesis by auto
    next
      case (Inr ls)
      obtain r2 st2 where b: "renameLoadBalancer_listeners px lb cn ls st1 = (r2, st2)"
        by (cases "renameLoadBalancer_listeners px lb cn ls st1")
      have lm: "case r2 of Inl e \<Rightarrow> \<exists>ph. moves ?lk Idle st1 st2 ph | Inr u \<Rightarrow> moves ?lk Idle st1 st2 Idle"
        using listeners_moves [OF b] unfolding accessor_links(1) [OF g] .
      show ?thesis
      proof (cases r2)
        case (Inl err)
        with e g \<open>r1 = Inr ls\<close> b have "st' = st2" "r = Inl err"
          unfolding renameLoadBalancer_def by simp_all
        with g1 lm Inl show ?thesis by (auto intro: moves_seq)
      next
        case (Inr u)
        with e g \<open>r1 = Inr ls\<close> b
        have "UpdateLoadBalancer (lb_ID lb) lbName (map (renameTag px cn) (lb_Tags lb)) st2 = (r, st')"
          unfolding renameLoadBalancer_def by simp
        then have "moves ?lk Idle st2 st' Finished"
          by (auto dest!: PutLoadBalancer_calls intro!: moves_single)
        moreover from lm Inr have "moves ?lk Idle st1 st2 Idle" by simp
        ultimately have "moves ?lk Idle st st' Finished" using g1 by (blast intro: moves_seq)
        then show ?thesis by (cases r) auto
      qed
    qed
  qed
  then show ?thesis
    using e by (cases r) (auto simp: moves_def bottom_up_def issued_def)
qed

theorem renameLoadBalancer_bottom_up_witness:
  "bottom_up (links cloudA) (map fst (issued cloudA (snd (renameLoadBalancer px0 lbA ''kube_service_B_ns_svc'' ''B'' cloudA))))
   \<and> map fst (issued cloudA (snd (renameLoadBalancer px0 lbA ''kube_service_B_ns_svc'' ''B'' cloudA)))
     = [ListListeners ''lb1'', GetPool ''lb1'' ''l1'', GetMonitor ''m1'',
        PutMonitor ''m1'' ''monitor_0_kube_service_B_ns_svc'' ''lb1'',
        PutPool ''lb1'' ''p1'' ''pool_0_kube_service_B_ns_svc'',
        PutListener ''lb1'' ''l1'' ''listener_0_kube_service_B_ns_svc'' [''kube_service_B_ns_svc''],
        PutLoadBalancer ''lb1'' ''kube_service_B_ns_svc'' [''kube_service_B_ns_svc'', ''team:payments'']]
   \<and> \<not> bottom_up (links cloudA)
        [PutPool ''lb1'' ''p1'' ''pool_0_kube_service_B_ns_svc'',
         PutMonitor ''m1'' ''monitor_0_kube_service_B_ns_svc'' ''lb1'']"
proof -
  have "map fst (issued cloudA (snd (renameLoadBalancer px0 lbA ''kube_service_B_ns_svc'' ''B'' cloudA)))
     = [ListListeners ''lb1'', GetPool ''lb1'' ''l1'', GetMonitor ''m1'',
        PutMonitor ''m1'' ''monitor_0_kube_service_B_ns_svc'' ''lb1'',
        PutPool ''lb1'' ''p1'' ''pool_0_kube_service_B_ns_svc'',
        PutListener ''lb1'' ''l1'' ''listener_0_kube_service_B_ns_svc'' [''kube_service_B_ns_svc''],
        PutLoadBalancer ''lb1'' ''kube_service_B_ns_svc'' [''kube_service_B_ns_svc'', ''team:payments'']]"
    by code_simp
  moreover have "\<not> bottom_up (links cloudA)
        [PutPool ''lb1'' ''p1'' ''pool_0_kube_service_B_ns_svc'',
         PutMonitor ''m1'' ''monitor_0_kube_service_B_ns_svc'' ''lb1'']"
    by code_simp
  ultimately show ?thesis
    using renameLoadBalancer_bottom_up [of cloudA px0 lbA "''kube_service_B_ns_svc''" "''B''"]
    by (simp only: simp_thms)
qed

subsection \<open>Foreign listeners\<close>

lemma untouched_refl: "untouched ident ids xs xs"
  by (simp add: untouched_def list.rel_refl)

lemma untouched_mono: "untouched ident ids xs ys \<Longrightarrow> ids \<subseteq> ids' \<Longrightarrow> untouched ident ids' xs ys"
  unfolding untouched_def by (erule list_all2_mono) auto

lemma untouched_trans:
  "untouched ident ids xs ys \<Longrightarrow> untouched ident ids ys zs \<Longrightarrow> untouched ident ids xs zs"
  unfolding untouched_def
  by (erule (1) list_all2_trans [rotated]) auto

lemma untouched_map:
  "(\<And>x. ident (f x) = ident x) \<Longrightarrow> (\<And>x. ident x \<notin> ids \<Longrightarrow> f x = x) \<Longrightarrow> untouched ident ids xs (map f xs)"
  by (simp add: untouched_def list_all2_map2 list.rel_refl_strong)

lemma untouched_member:
  "untouched ident ids xs ys \<Longrightarrow> x \<in> set xs \<Longrightarrow> ident x \<notin> ids \<Longrightarrow> x \<in> set ys"
  unfolding untouched_def
  by (auto simp: list_all2_conv_all_nth in_set_conv_nth)

lemma follows_refl: "follows st st"
  by (simp add: follows_def untouched_refl)

lemma follows_trans: "follows st st1 \<Longrightarrow> follows st1 st' \<Longrightarrow> follows st st'"
proof -
  assume "follows st st1" "follows st1 st'"
  then obtain n1 n2 where c: "calls st1 = calls st @ n1" "calls st' = calls st1 @ n2"
    and u1: "untouched l_ID (renamed_listeners n1) (listeners st) (listeners st1)"
       "untouched p_ID (renamed_pools n1) (pools st) (pools st1)"
       "untouched m_ID (renamed_monitors n1) (monitors st) (monitors st1)"
    and u2: "untouched l_ID (renamed_listeners n2) (listeners st1) (listeners st')"
       "untouched p_ID (renamed_pools n2) (pools st1) (pools st')"
       "untouched m_ID (renamed_monitors n2) (monitors st1) (monitors st')"
    unfolding follows_def by blast
  have s: "renamed_listeners n1 \<subseteq> renamed_listeners (n1 @ n2)" "renamed_listeners n2 \<subseteq> renamed_listeners (n1 @ n2)"
    "renamed_pools n1 \<subseteq> renamed_pools (n1 @ n2)" "renamed_pools n2 \<subseteq> renamed_pools (n1 @ n2)"
    "renamed_monitors n1 \<subseteq> renamed_monitors (n1 @ n2)" "renamed_monitors n2 \<subseteq> renamed_monitors (n1 @ n2)"
    by (auto simp: renamed_listeners_def renamed_pools_def renamed_monitors_def)
  have "calls st' = calls st @ (n1 @ n2)" using c by simp
  moreover have "untouched l_ID (renamed_listeners (n1 @ n2)) (listeners st) (listeners st')"
    using u1(1) u2(1) s(1,2) by (blast intro: untouched_trans untouched_mono)
  moreover have "untouched p_ID (renamed_pools (n1 @ n2)) (pools st) (pools st')"
    using u1(2) u2(2) s(3,4) by (blast intro: untouched_trans untouched_mono)
  moreover have "untouched m_ID (renamed_monitors (n1 @ n2)) (monitors st) (monitors st')"
    using u1(3) u2(3) s(5,6) by (blast intro: untouched_trans untouched_mono)
  ultimately show ?thesis unfolding follows_def by blast
qed

lemma accessor_follows:
  "GetListenersByLoadBalancerID lbID st = (r1, st') \<Longrightarrow> follows st st'"
  "GetPoolByListener lbID lid st = (r2, st') \<Longrightarrow> follows st st'"
  "GetHealthMonitor mid st = (r3, st') \<Longrightarrow> follows st st'"
  "UpdateHealthMonitor mid name lbID st = (r4, st') \<Longrightarrow> follows st st'"
  "UpdatePool lbID pid name st = (r4, st') \<Longrightarrow> follows st st'"
  "UpdateListener lbID lid name tags st = (r4, st') \<Longrightarrow> follows st st'"
  "UpdateLoadBalancer lbID name tags st = (r5, st') \<Longrightarrow> follows st st'"
proof -
  show "GetListenersByLoadBalancerID lbID st = (r1, st') \<Longrightarrow> follows st st'"
    by (cases r1) (auto simp: follows_def untouched_refl dest!: accessor_Inl GetListeners_Inr)
  show "GetPoolByListener lbID lid st = (r2, st') \<Longrightarrow> follows st st'"
    by (cases r2) (auto simp: follows_def untouched_refl dest!: accessor_Inl GetPool_Inr)
  show "GetHealthMonitor mid st = (r3, st') \<Longrightarrow> follows st st'"
    by (cases r3) (auto simp: follows_def untouched_refl dest!: accessor_Inl GetMonitor_Inr)
  show "UpdateHealthMonitor mid name lbID st = (r4, st') \<Longrightarrow> follows st st'"
    by (cases r4) (auto simp: follows_def untouched_refl renamed_monitors_def
        intro!: untouched_map dest!: accessor_Inl PutMonitor_Inr split: if_splits)
  show "UpdatePool lbID pid name st = (r4, st') \<Longrightarrow> follows st st'"
    by (cases r4) (auto simp: follows_def untouched_refl renamed_pools_def
        intro!: untouched_map dest!: accessor_Inl PutPool_Inr split: if_splits)
  show "UpdateListener lbID lid name tags st = (r4, st') \<Longrightarrow> follows st st'"
    by (cases r4) (auto simp: follows_def untouched_refl renamed_listeners_def
        intro!: untouched_map dest!: accessor_Inl PutListener_Inr split: if_splits)
  show "UpdateLoadBalancer lbID name tags st = (r5, st') \<Longrightarrow> follows st st'"
    by (cases r5) (auto simp: follows_def untouched_refl dest!: accessor_Inl PutLoadBalancer_Inr)
qed

lemma monitor_block_follows:
  "renameLoadBalancer_monitor px lb cn p st = (r, st') \<Longrightarrow> follows st st'"
  unfolding renameLoadBalancer_monitor_def
  apply (clarsimp simp: Let_def follows_refl split: if_splits prod.splits sum.splits)
    apply (blast intro: follows_trans dest: accessor_follows)+
  done

lemma pool_block_follows:
  "renameLoadBalancer_pool px lb cn old p st = (r, st') \<Longrightarrow> follows st st'"
  unfolding renameLoadBalancer_pool_def
  apply (clarsimp split: prod.splits sum.splits)
   apply (blast intro: follows_trans dest: monitor_block_follows accessor_follows)+
  done

lemma listener_follows:
  "renameLoadBalancer_listener px lb cn l st = (r, st') \<Longrightarrow> follows st st'"
  unfolding renameLoadBalancer_listener_def
  apply (clarsimp simp: Let_def follows_refl split: if_splits prod.splits sum.splits)
   apply (blast intro: follows_trans follows_refl dest: pool_block_follows accessor_follows)+
  done

lemma listeners_follows:
  "renameLoadBalancer_listeners px lb cn ls st = (r, st') \<Longrightarrow> follows st st'"
proof (induction ls arbitrary: st)
  case Nil
  then show ?case by (auto intro: follows_refl)
next
  case (Cons l ls)
  then show ?case
    apply (clarsimp split: prod.splits sum.splits)
     apply (blast intro: follows_trans dest: listener_follows)+
    done
qed

lemma run_follows:
  "renameLoadBalancer px lb lbName cn st = (r, st') \<Longrightarrow> follows st st'"
  unfolding renameLoadBalancer_def
  apply (clarsimp split: prod.splits sum.splits)
    apply (blast intro: follows_trans dest: listeners_follows accessor_follows)+
  done


lemma distinct_map_eq: "distinct (map f xs) \<Longrightarrow> x \<in> set xs \<Longrightarrow> y \<in> set xs \<Longrightarrow> f x = f y \<Longrightarrow> x = y"
  by (auto simp: distinct_map dest: inj_onD)

lemma distinct_filter_map_eq:
  assumes "distinct (filter P (map f xs))" "x \<in> set xs" "y \<in> set xs" "f x = f y" "P (f x)"
  shows "x = y"
proof -
  have "distinct (map f (filter (P \<circ> f) xs))"
    using assms(1) by (simp add: filter_map)
  moreover have "x \<in> set (filter (P \<circ> f) xs)" "y \<in> set (filter (P \<circ> f) xs)"
    using assms(2-5) by auto
  ultimately show ?thesis using assms(4) distinct_map_eq by metis
qed

lemma follows_issued:
  assumes "follows st st'"
  shows "untouched l_ID (renamed_listeners (issued st st')) (listeners st) (listeners st')"
    and "untouched p_ID (renamed_pools (issued st st')) (pools st) (pools st')"
    and "untouched m_ID (renamed_monitors (issued st st')) (monitors st) (monitors st')"
  using assms by (auto simp: follows_def issued_def)

lemma linked_pool:
  "(pid, mid, b, lid) \<in> set (links st) \<Longrightarrow>
     \<exists>p\<in>set (pools st). p_ID p = pid \<and> p_MonitorID p = mid \<and> p_lb p = b \<and> p_listener p = lid"
  by (auto simp: links_def)

text \<open>
  C5.  A listener whose name does not begin with the listener prefix, in a tree (the
  identifiers of the listeners and of the pools are distinct, and no two pools name the
  same monitor).  Its round of the loop sends no request and changes nothing.  In the
  whole run of \<open>renameLoadBalancer\<close>, which renames the load balancer when it succeeds,
  no update names this listener, any pool attached to it, or the monitor of such a pool,
  and the service holds all three afterwards as it held them before, names and tags
  included.
\<close>

theorem foreign_listener_subtree_untouched:
  assumes run: "renameLoadBalancer px lb lbName cn st = (r, st')"
    and l: "l \<in> set (listeners st)" and foreign: "\<not> prefix (listenerPrefix px) (l_Name l)"
    and dl: "distinct (map l_ID (listeners st))" and dp: "distinct (map p_ID (pools st))"
    and dm: "distinct (filter (\<lambda>mid. mid \<noteq> []) (map p_MonitorID (pools st)))"
  shows "(\<forall>s. renameLoadBalancer_listener px lb cn l s = (Inr (), s))
       \<and> l \<in> set (listeners st') \<and> l_ID l \<notin> renamed_listeners (issued st st')
       \<and> (\<forall>p\<in>set (pools st). p_listener p = l_ID l \<longrightarrow>
             p \<in> set (pools st') \<and> p_ID p \<notin> renamed_pools (issued st st')
             \<and> (\<forall>m\<in>set (monitors st). m_ID m = p_MonitorID p \<longrightarrow>
                   m \<in> set (monitors st') \<and> m_ID m \<notin> renamed_monitors (issued st st')))"
proof -
  let ?ls = "filter (\<lambda>l. l_lb l = lb_ID lb) (listeners st)"
  have calls: "run_call px lb cn (links st) ?ls c" if "(c, out) \<in> set (issued st st')" for c out
    using log_all_issued [OF run_calls [OF run]] that by (auto simp: list_all_iff)
  note fr = follows_issued [OF run_follows [OF run]]
  have other: "l' \<noteq> l \<and> l_ID l' \<noteq> l_ID l" if "l' \<in> set ?ls" "prefix (listenerPrefix px) (l_Name l')" for l'
  proof -
    from that foreign have "l' \<noteq> l" by auto
    moreover from that have "l' \<in> set (listeners st)" by simp
    ultimately show ?thesis using distinct_map_eq [OF dl _ l] by blast
  qed
  have nl: "l_ID l \<notin> renamed_listeners (issued st st')"
  proof
    assume "l_ID l \<in> renamed_listeners (issued st st')"
    then obtain lbID name tags out where "(PutListener lbID (l_ID l) name tags, out) \<in> set (issued st st')"
      by (auto simp: renamed_listeners_def)
    from calls [OF this] obtain l' where "l' \<in> set ?ls" "prefix (listenerPrefix px) (l_Name l')" "l_ID l' = l_ID l"
      by (auto simp: run_call_def body_call_def)
    with other show False by blast
  qed
  have np: "p_ID p \<notin> renamed_pools (issued st st')" if p: "p \<in> set (pools st)" "p_listener p = l_ID l" for p
  proof
    assume "p_ID p \<in> renamed_pools (issued st st')"
    then obtain lbID name out where "(PutPool lbID (p_ID p) name, out) \<in> set (issued st st')"
      by (auto simp: renamed_pools_def)
    from calls [OF this] obtain l' mid where l': "l' \<in> set ?ls" "prefix (listenerPrefix px) (l_Name l')"
      and "(p_ID p, mid, lb_ID lb, l_ID l') \<in> set (links st)"
      by (auto simp: run_call_def body_call_def)
    then obtain p' where "p' \<in> set (pools st)" "p_ID p' = p_ID p" "p_listener p' = l_ID l'"
      using linked_pool by blast
    with p have "l_ID l' = l_ID l" using distinct_map_eq [OF dp] by metis
    with other l' show False by blast
  qed
  have nm: "m_ID m \<notin> renamed_monitors (issued st st')"
    if p: "p \<in> set (pools st)" "p_listener p = l_ID l" and m: "m_ID m = p_MonitorID p" for p m
  proof
    assume "m_ID m \<in> renamed_monitors (issued st st')"
    then obtain lbID name out where "(PutMonitor (m_ID m) name lbID, out) \<in> set (issued st st')"
      by (auto simp: renamed_monitors_def)
    from calls [OF this] obtain l' pid where l': "l' \<in> set ?ls" "prefix (listenerPrefix px) (l_Name l')"
      and ne: "m_ID m \<noteq> []" and "(pid, m_ID m, lb_ID lb, l_ID l') \<in> set (links st)"
      by (auto simp: run_call_def body_call_def)
    then obtain p' where p': "p' \<in> set (pools st)" "p_MonitorID p' = m_ID m" "p_listener p' = l_ID l'"
      using linked_pool by blast
    have "p' = p"
      using distinct_filter_map_eq [OF dm p'(1) p(1)] p'(2) m ne by simp
    with p' p have "l_ID l' = l_ID l" by simp
    with other l' show False by blast
  qed
  have "renameLoadBalancer_listener px lb cn l s = (Inr (), s)" for s
    using foreign by (simp add: renameLoadBalancer_listener_def)
  then show ?thesis
    using nl np nm l untouched_member [OF fr(1)] untouched_member [OF fr(2)] untouched_member [OF fr(3)]
    by blast
qed

theorem foreign_listener_subtree_untouched_witness:
  "hd (tl (listeners cloudA)) \<in> set (listeners (snd (renameLoadBalancer px0 lbA ''kube_service_B_ns_svc'' ''B'' cloudA)))
   \<and> hd (tl (pools cloudA)) \<in> set (pools (snd (renameLoadBalancer px0 lbA ''kube_service_B_ns_svc'' ''B'' cloudA)))
   \<and> hd (tl (monitors cloudA)) \<in> set (monitors (snd (renameLoadBalancer px0 lbA ''kube_service_B_ns_svc'' ''B'' cloudA)))
   \<and> l_Name (hd (tl (listeners cloudA))) = ''custom''
   \<and> lb_Name (hd (loadbalancers (snd (renameLoadBalancer px0 lbA ''kube_service_B_ns_svc'' ''B'' cloudA))))
       = ''kube_service_B_ns_svc''"
proof -
  let ?r = "renameLoadBalancer px0 lbA ''kube_service_B_ns_svc'' ''B'' cloudA"
  let ?l = "hd (tl (listeners cloudA))"
  let ?p = "hd (tl (pools cloudA))"
  let ?m = "hd (tl (monitors cloudA))"
  have a1: "?r = (fst ?r, snd ?r)" by simp
  have a2: "?l \<in> set (listeners cloudA)" by code_simp
  have a3: "\<not> prefix (listenerPrefix px0) (l_Name ?l)" by code_simp
  have a4: "distinct (map l_ID (listeners cloudA))" by code_simp
  have a5: "distinct (map p_ID (pools cloudA))" by code_simp
  have a6: "distinct (filter (\<lambda>mid. mid \<noteq> []) (map p_MonitorID (pools cloudA)))" by code_simp
  have b: "?p \<in> set (pools cloudA)" "p_listener ?p = l_ID ?l" "?m \<in> set (monitors cloudA)"
    "m_ID ?m = p_MonitorID ?p" "l_Name ?l = ''custom''"
    "lb_Name (hd (loadbalancers (snd ?r))) = ''kube_service_B_ns_svc''"
    by code_simp+
  from foreign_listener_subtree_untouched [OF a1 a2 a3 a4 a5 a6] b
  show ?thesis by blast
qed

subsection \<open>Invoking the cascade again\<close>









end
